theory Spec2Isabelle
  imports Main "HOL-Library.Finite_Map"
begin

section \<open>Data model\<close>

text \<open>
  A tree is an id-keyed mapping of nodes (\<^verbatim>\<open>Record<string, TreeNode>\<close>) together with a
  root id. Only the \<^verbatim>\<open>children\<close> field is read by the layout; the other fields are the
  ones the tree view reads (\<^verbatim>\<open>id\<close>, \<^verbatim>\<open>text\<close>, \<^verbatim>\<open>bookmark\<close>) and the parent link
  of the data model. The field names \<^verbatim>\<open>id\<close> and \<^verbatim>\<open>text\<close> are taken in HOL, hence the prefix.
  A JavaScript object has finitely many keys of its own, so the mapping is a finite map.
\<close>

record TreeNode =
  node_id :: string
  node_text :: string
  parentId :: "string option"
  children :: "string list"
  bookmark :: bool

text \<open>
  The expression \<^verbatim>\<open>nodes[nodeId]\<close> reads the object \<^verbatim>\<open>nodes\<close>, a plain object, through its
  prototype chain. It gives the node under a key of the object itself; under a name that
  is no key of the object but a property of \<^verbatim>\<open>Object.prototype\<close> it gives that property, a
  function (or for \<^verbatim>\<open>__proto__\<close> the prototype object): a truthy value that has no
  \<^verbatim>\<open>children\<close>; and under every other name it gives \<^verbatim>\<open>undefined\<close>.
  \<open>prototypeKeys\<close> are the property names of \<^verbatim>\<open>Object.prototype\<close> in ECMAScript, those of
  its Annex B included.
\<close>

definition prototypeKeys :: "string list" where
  "prototypeKeys =
     [''constructor'', ''hasOwnProperty'', ''isPrototypeOf'', ''propertyIsEnumerable'',
      ''toLocaleString'', ''toString'', ''valueOf'', ''__proto__'',
      ''__defineGetter__'', ''__defineSetter__'', ''__lookupGetter__'', ''__lookupSetter__'']"

datatype lookup = Undefined | Inherited | Own TreeNode

definition nodeAt :: "(string, TreeNode) fmap \<Rightarrow> string \<Rightarrow> lookup" where
  "nodeAt nodes nodeId =
     (case fmlookup nodes nodeId of
        Some node \<Rightarrow> Own node
      | None \<Rightarrow> if nodeId \<in> set prototypeKeys then Inherited else Undefined)"

text \<open>
  Reading \<^verbatim>\<open>node.children.length\<close> or calling \<^verbatim>\<open>node.children.forEach\<close> on an inherited
  property, whose \<^verbatim>\<open>children\<close> is \<^verbatim>\<open>undefined\<close>, throws a \<^verbatim>\<open>TypeError\<close>. Nothing in
  \<^verbatim>\<open>calculateLayout\<close> catches it.
\<close>

datatype error = TypeError

text \<open>
  Coordinates are JavaScript numbers. Every coordinate the layout computes is an integer
  (sums of multiples of 125), so they are modelled as unbounded integers; the rounding of
  doubles beyond \<open>2 ^ 53\<close> is outside the model.
\<close>

record Position =
  pos_x :: int
  pos_y :: int

text \<open>
  The objects one call of \<^verbatim>\<open>calculateLayout\<close> works on. \<open>treeNodes\<close> is the object \<^verbatim>\<open>nodes\<close>
  it is given, by reference: the tree snapshot of the caller. The others are the objects
  the call creates: the \<^verbatim>\<open>positions\<close> object, the closure-level set \<^verbatim>\<open>visited\<close> that
  \<^verbatim>\<open>calculateSubtreeWidth\<close> reads and writes, and the set created by \<^verbatim>\<open>new Set()\<close> at the
  top call of \<^verbatim>\<open>layout\<close>, which every recursive call receives by reference as its fourth
  argument (field \<open>seen\<close>). Of \<open>positions\<close> the model keeps what the layout writes,
  \<^verbatim>\<open>positions[nodeId] = { x, y }\<close>; what the object gives under a name never written is
  not modelled.
\<close>

record LayoutState =
  treeNodes :: "(string, TreeNode) fmap"
  positions :: "string \<rightharpoonup> Position"
  visited :: "string set"
  seen :: "string set"

definition horizontalSpacing :: int where
  "horizontalSpacing = 250"

definition verticalSpacing :: int where
  "verticalSpacing = 120"

section \<open>The layout of the tree view\<close>

subsection \<open>Subtree width\<close>

lemma nodeAt_Own: "nodeAt nodes n = Own node \<longleftrightarrow> fmlookup nodes n = Some node"
  by (auto simp: nodeAt_def split: option.splits)

lemma card_unvisited_less:
  assumes "nodeAt nodes n = Own node" and "n \<notin> vis"
  shows "card (fmdom' nodes - insert n vis) < card (fmdom' nodes - vis)"
proof -
  have "n \<in> fmdom' nodes" using assms(1) by (simp add: nodeAt_Own fmdom'I)
  then have "fmdom' nodes - insert n vis \<subset> fmdom' nodes - vis"
    using assms(2) by auto
  then show ?thesis by (simp add: psubset_card_mono)
qed

lemma card_unvisited_mono:
  assumes "vis \<subseteq> vis'"
  shows "card (fmdom' nodes - vis') \<le> card (fmdom' nodes - vis)"
proof -
  have "fmdom' nodes - vis' \<subseteq> fmdom' nodes - vis" using assms by auto
  then show ?thesis by (simp add: card_mono)
qed

text \<open>
  \<^verbatim>\<open>calculateSubtreeWidth\<close> returns a width or throws, and leaves a state either way;
  \<open>widthReduce\<close> is the
  \<^verbatim>\<open>node.children.reduce((sum, childId) => sum + calculateSubtreeWidth(childId), 0)\<close> of its
  last line, with the accumulator \<^verbatim>\<open>sum\<close> as \<open>acc\<close>. On an inherited property that is not
  in \<^verbatim>\<open>visited\<close> the guard \<^verbatim>\<open>!node || visited.has(nodeId)\<close> is false, the id is added to
  \<^verbatim>\<open>visited\<close>, and \<^verbatim>\<open>node.children.length\<close> throws.
\<close>

function calculateSubtreeWidth :: "string \<Rightarrow> LayoutState \<Rightarrow> (error + int) \<times> LayoutState"
  and widthReduce :: "string list \<Rightarrow> int \<Rightarrow> LayoutState \<Rightarrow> (error + int) \<times> LayoutState"
where
  "calculateSubtreeWidth nodeId st =
     (case nodeAt (treeNodes st) nodeId of
        Undefined \<Rightarrow> (Inr 1, st)
      | Inherited \<Rightarrow>
          if nodeId \<in> visited st then (Inr 1, st)
          else (Inl TypeError, st\<lparr>visited := insert nodeId (visited st)\<rparr>)
      | Own node \<Rightarrow>
          if nodeId \<in> visited st then (Inr 1, st)
          else if children node = [] then (Inr 1, st\<lparr>visited := insert nodeId (visited st)\<rparr>)
          else widthReduce (children node) 0 (st\<lparr>visited := insert nodeId (visited st)\<rparr>))"
| "widthReduce [] acc st = (Inr acc, st)"
| "widthReduce (childId # rest) acc st =
     (case calculateSubtreeWidth childId st of
        (Inl e, st') \<Rightarrow> (Inl e, st')
      | (Inr w, st') \<Rightarrow> widthReduce rest (acc + w) st')"
  by pat_completeness auto

text \<open>
  What every call of \<^verbatim>\<open>calculateSubtreeWidth\<close> leaves of a state: the tree, the positions and
  the set \<open>seen\<close> as they were, and \<^verbatim>\<open>visited\<close> no smaller.
\<close>

definition widthFrame :: "LayoutState \<Rightarrow> LayoutState \<Rightarrow> bool" where
  "widthFrame st st' \<longleftrightarrow>
     treeNodes st' = treeNodes st \<and> positions st' = positions st \<and> seen st' = seen st \<and>
     visited st \<subseteq> visited st'"

lemma widthFrame_refl: "widthFrame st st"
  by (simp add: widthFrame_def)

lemma widthFrame_trans: "widthFrame st st1 \<Longrightarrow> widthFrame st1 st2 \<Longrightarrow> widthFrame st st2"
  by (auto simp: widthFrame_def)

lemma widthFrame_insert: "widthFrame st (st\<lparr>visited := insert n (visited st)\<rparr>)"
  by (auto simp: widthFrame_def)

lemma width_dom_frame:
  "calculateSubtreeWidth_widthReduce_dom (Inl (nodeId, st)) \<Longrightarrow>
     widthFrame st (snd (calculateSubtreeWidth nodeId st))"
  "calculateSubtreeWidth_widthReduce_dom (Inr (cs, acc, st)) \<Longrightarrow>
     widthFrame st (snd (widthReduce cs acc st))"
proof (induct nodeId st and cs acc st rule: calculateSubtreeWidth_widthReduce.pinduct)
  case (1 nodeId st)
  let ?st0 = "st\<lparr>visited := insert nodeId (visited st)\<rparr>"
  show ?case
  proof (cases "nodeAt (treeNodes st) nodeId")
    case Undefined
    then show ?thesis using 1(1) by (simp add: calculateSubtreeWidth.psimps widthFrame_refl)
  next
    case Inherited
    then show ?thesis using 1(1)
      by (simp add: calculateSubtreeWidth.psimps widthFrame_refl widthFrame_insert)
  next
    case (Own node)
    show ?thesis
    proof (cases "nodeId \<in> visited st \<or> children node = []")
      case True
      then show ?thesis using 1(1) Own
        by (auto simp: calculateSubtreeWidth.psimps widthFrame_refl widthFrame_insert)
    next
      case False
      then have "widthFrame ?st0 (snd (widthReduce (children node) 0 ?st0))"
        using 1(2)[OF Own] by simp
      then have "widthFrame st (snd (widthReduce (children node) 0 ?st0))"
        using widthFrame_insert widthFrame_trans by blast
      then show ?thesis using 1(1) Own False by (simp add: calculateSubtreeWidth.psimps)
    qed
  qed
next
  case (2 acc st)
  then show ?case by (simp add: widthReduce.psimps widthFrame_refl)
next
  case (3 childId rest acc st)
  obtain r st1 where w: "calculateSubtreeWidth childId st = (r, st1)"
    by (cases "calculateSubtreeWidth childId st")
  have f1: "widthFrame st st1" using 3(2) w by simp
  show ?case
  proof (cases r)
    case (Inl e)
    then show ?thesis using 3(1) w f1 by (simp add: widthReduce.psimps)
  next
    case (Inr v)
    then have "widthFrame st1 (snd (widthReduce rest (acc + v) st1))"
      using 3(3)[OF w[symmetric] Inr] by simp
    then have "widthFrame st (snd (widthReduce rest (acc + v) st1))"
      using f1 widthFrame_trans by blast
    then show ?thesis using 3(1) w Inr by (simp add: widthReduce.psimps)
  qed
qed


text \<open>
  Every call returns or throws: each argument lies in the accessible part of the relation
  of recursive calls. A call of \<^verbatim>\<open>calculateSubtreeWidth\<close> that goes on adds a key of the tree
  to \<^verbatim>\<open>visited\<close> that was not in it, and the set never shrinks.
\<close>

lemma calculateSubtreeWidth_total: "calculateSubtreeWidth_widthReduce_dom a"
proof (rule "calculateSubtreeWidth_widthReduce.termination"
    [of "inv_image (less_than <*lex*> less_than)
    (\<lambda>a. case a of
        Inl (nodeId, st) \<Rightarrow> (card (fmdom' (treeNodes st) - visited st), 0)
      | Inr (cs, acc, st) \<Rightarrow> (card (fmdom' (treeNodes st) - visited st), Suc (length cs)))",
      THEN spec], goal_cases)
  case 1
  then show ?case by auto
next
  case (2 nodeId st node)
  then show ?case by (simp add: card_unvisited_less)
next
  case (3 childId rest acc st)
  then show ?case by simp
next
  case (4 childId rest acc st r st' w)
  from width_dom_frame(1)[OF 4(3)] have "widthFrame st st'"
    by (simp flip: 4(1))
  then have "treeNodes st' = treeNodes st" and "visited st \<subseteq> visited st'"
    by (simp_all add: widthFrame_def)
  then have "card (fmdom' (treeNodes st') - visited st') \<le> card (fmdom' (treeNodes st) - visited st)"
    by (simp add: card_unvisited_mono)
  then show ?case by auto
qed

termination calculateSubtreeWidth
  by (simp add: calculateSubtreeWidth_total)

declare calculateSubtreeWidth.simps [simp del]

lemma width_frame: "widthFrame st (snd (calculateSubtreeWidth nodeId st))"
  by (rule width_dom_frame(1)) (rule calculateSubtreeWidth_total)

lemma widthReduce_frame: "widthFrame st (snd (widthReduce cs acc st))"
  by (rule width_dom_frame(2)) (rule calculateSubtreeWidth_total)

subsection \<open>Placement\<close>

text \<open>
  \<^verbatim>\<open>layout(nodeId, x, y, visited)\<close> returns the x at which the next sibling starts, or
  throws; \<open>layoutForEach\<close> is its \<^verbatim>\<open>node.children.forEach\<close> loop, which carries \<^verbatim>\<open>currentX\<close>
  and reads the \<^verbatim>\<open>y\<close> of the enclosing call. On an inherited property that is not in its
  set the call adds the id, writes a position and throws at \<^verbatim>\<open>node.children.forEach\<close>. The
  JavaScript divisions \<^verbatim>\<open>(childWidth * horizontalSpacing) / 2\<close> and
  \<^verbatim>\<open>horizontalSpacing / 2\<close> are exact, since 250 is even.
\<close>

function layout :: "string \<Rightarrow> int \<Rightarrow> int \<Rightarrow> LayoutState \<Rightarrow> (error + int) \<times> LayoutState"
  and layoutForEach ::
    "string list \<Rightarrow> int \<Rightarrow> int \<Rightarrow> LayoutState \<Rightarrow> (error + int) \<times> LayoutState"
where
  "layout nodeId x y st =
     (case nodeAt (treeNodes st) nodeId of
        Undefined \<Rightarrow> (Inr x, st)
      | Inherited \<Rightarrow>
          if nodeId \<in> seen st then (Inr x, st)
          else (Inl TypeError,
                st\<lparr>seen := insert nodeId (seen st),
                   positions := (positions st)(nodeId \<mapsto> \<lparr>pos_x = x, pos_y = y\<rparr>)\<rparr>)
      | Own node \<Rightarrow>
          if nodeId \<in> seen st then (Inr x, st)
          else (case layoutForEach (children node) x y
                       (st\<lparr>seen := insert nodeId (seen st),
                          positions := (positions st)(nodeId \<mapsto> \<lparr>pos_x = x, pos_y = y\<rparr>)\<rparr>) of
                  (Inl e, st') \<Rightarrow> (Inl e, st')
                | (Inr currentX, st') \<Rightarrow> (Inr (max currentX (x + horizontalSpacing)), st')))"
| "layoutForEach [] currentX y st = (Inr currentX, st)"
| "layoutForEach (childId # rest) currentX y st =
     (case calculateSubtreeWidth childId st of
        (Inl e, st1) \<Rightarrow> (Inl e, st1)
      | (Inr childWidth, st1) \<Rightarrow>
          (case layout childId
                  (currentX + (childWidth * horizontalSpacing) div 2 - horizontalSpacing div 2)
                  (y + verticalSpacing) st1 of
             (Inl e, st2) \<Rightarrow> (Inl e, st2)
           | (Inr currentX', st2) \<Rightarrow> layoutForEach rest currentX' y st2))"
  by pat_completeness auto

text \<open>
  What every call of \<^verbatim>\<open>layout\<close> leaves of a state: the tree as it was, and the set \<open>seen\<close> no
  smaller.
\<close>

definition layoutFrame :: "LayoutState \<Rightarrow> LayoutState \<Rightarrow> bool" where
  "layoutFrame st st' \<longleftrightarrow> treeNodes st' = treeNodes st \<and> seen st \<subseteq> seen st'"

lemma layoutFrame_refl: "layoutFrame st st"
  by (simp add: layoutFrame_def)

lemma layoutFrame_trans: "layoutFrame st st1 \<Longrightarrow> layoutFrame st1 st2 \<Longrightarrow> layoutFrame st st2"
  by (auto simp: layoutFrame_def)

lemma layoutFrame_enter:
  "layoutFrame st (st\<lparr>seen := insert n (seen st), positions := P\<rparr>)"
  by (auto simp: layoutFrame_def)

lemma layoutFrame_width: "widthFrame st st' \<Longrightarrow> layoutFrame st st'"
  by (simp add: widthFrame_def layoutFrame_def)

lemma layout_dom_frame:
  "layout_layoutForEach_dom (Inl (nodeId, x, y, st)) \<Longrightarrow>
     layoutFrame st (snd (layout nodeId x y st))"
  "layout_layoutForEach_dom (Inr (cs, currentX, y, st)) \<Longrightarrow>
     layoutFrame st (snd (layoutForEach cs currentX y st))"
proof (induct nodeId x y st and cs currentX y st rule: layout_layoutForEach.pinduct)
  case (1 nodeId x y st)
  let ?st0 = "st\<lparr>seen := insert nodeId (seen st),
      positions := (positions st)(nodeId \<mapsto> \<lparr>pos_x = x, pos_y = y\<rparr>)\<rparr>"
  show ?case
  proof (cases "nodeAt (treeNodes st) nodeId")
    case Undefined
    then show ?thesis using 1(1) by (simp add: layout.psimps layoutFrame_refl)
  next
    case Inherited
    then show ?thesis using 1(1)
      by (simp add: layout.psimps layoutFrame_refl layoutFrame_enter)
  next
    case (Own node)
    show ?thesis
    proof (cases "nodeId \<in> seen st")
      case True
      then show ?thesis using 1(1) Own by (simp add: layout.psimps layoutFrame_refl)
    next
      case False
      have "layoutFrame ?st0 (snd (layoutForEach (children node) x y ?st0))"
        using 1(2)[OF Own False] .
      then have "layoutFrame st (snd (layoutForEach (children node) x y ?st0))"
        using layoutFrame_enter layoutFrame_trans by blast
      then show ?thesis using 1(1) Own False
        by (auto simp: layout.psimps split: prod.splits sum.splits)
    qed
  qed
next
  case (2 currentX y st)
  then show ?case by (simp add: layoutForEach.psimps layoutFrame_refl)
next
  case (3 childId rest currentX y st)
  obtain r st1 where w: "calculateSubtreeWidth childId st = (r, st1)"
    by (cases "calculateSubtreeWidth childId st")
  have f1: "layoutFrame st st1"
    using width_frame[of st childId] w by (simp add: layoutFrame_width)
  show ?case
  proof (cases r)
    case (Inl e)
    then show ?thesis using 3(1) w f1 by (simp add: layoutForEach.psimps)
  next
    case (Inr cw)
    let ?cx = "currentX + (cw * horizontalSpacing) div 2 - horizontalSpacing div 2"
    obtain r2 st2 where l: "layout childId ?cx (y + verticalSpacing) st1 = (r2, st2)"
      by (cases "layout childId ?cx (y + verticalSpacing) st1")
    have f2: "layoutFrame st1 st2" using 3(2)[OF w[symmetric] Inr] l by simp
    show ?thesis
    proof (cases r2)
      case (Inl e)
      then show ?thesis using 3(1) w \<open>r = Inr cw\<close> l f1 f2
        by (auto simp: layoutForEach.psimps intro: layoutFrame_trans)
    next
      case (Inr cx')
      have "layoutFrame st2 (snd (layoutForEach rest cx' y st2))"
        using 3(3)[OF w[symmetric] \<open>r = Inr cw\<close> l[symmetric] Inr] .
      then have "layoutFrame st (snd (layoutForEach rest cx' y st2))"
        using f1 f2 layoutFrame_trans by blast
      then show ?thesis using 3(1) w \<open>r = Inr cw\<close> l Inr
        by (simp add: layoutForEach.psimps)
    qed
  qed
qed

text \<open>
  Every call of \<^verbatim>\<open>layout\<close> returns or throws as well: one that goes on adds a key of the
  tree to the set \<open>seen\<close>.
\<close>

lemma layout_total: "layout_layoutForEach_dom a"
proof (rule "layout_layoutForEach.termination"
    [of "inv_image (less_than <*lex*> less_than)
    (\<lambda>a. case a of
        Inl (nodeId, x, y, st) \<Rightarrow> (card (fmdom' (treeNodes st) - seen st), 0)
      | Inr (cs, currentX, y, st) \<Rightarrow>
          (card (fmdom' (treeNodes st) - seen st), Suc (length cs)))",
      THEN spec], goal_cases)
  case 1
  then show ?case by auto
next
  case (2 nodeId x y st node)
  then show ?case by (simp add: card_unvisited_less)
next
  case (3 childId rest currentX y st r st1 childWidth)
  have "widthFrame st st1" using width_frame[of st childId] by (simp flip: 3(1))
  then show ?case by (simp add: widthFrame_def)
next
  case (4 childId rest currentX y st r st1 childWidth r2 st2 currentX')
  have "widthFrame st st1" using width_frame[of st childId] by (simp flip: 4(1))
  then have f1: "layoutFrame st st1" by (rule layoutFrame_width)
  have "layoutFrame st1 st2" using layout_dom_frame(1)[OF 4(5)] by (simp flip: 4(3))
  with f1 have "layoutFrame st st2" by (rule layoutFrame_trans)
  then have "treeNodes st2 = treeNodes st" and "seen st \<subseteq> seen st2"
    by (simp_all add: layoutFrame_def)
  then have "card (fmdom' (treeNodes st2) - seen st2) \<le> card (fmdom' (treeNodes st) - seen st)"
    by (simp add: card_unvisited_mono)
  then show ?case by auto
qed

termination layout
  by (simp add: layout_total)

declare layout.simps [simp del]

lemma layout_frame: "layoutFrame st (snd (layout nodeId x y st))"
  by (rule layout_dom_frame(1)) (rule layout_total)

lemma layoutForEach_frame: "layoutFrame st (snd (layoutForEach cs currentX y st))"
  by (rule layout_dom_frame(2)) (rule layout_total)

text \<open>
  \<^verbatim>\<open>calculateLayout(rootId, nodes)\<close> in a memory \<open>st\<close>: the memory holds the object passed
  as \<^verbatim>\<open>nodes\<close> and whatever an earlier call has left. The declarations
  \<^verbatim>\<open>const positions = {}\<close> and \<^verbatim>\<open>const visited = new Set()\<close> and the argument \<^verbatim>\<open>new Set()\<close>
  give the call new, empty objects; then come \<^verbatim>\<open>visited.clear()\<close> and the one call
  \<^verbatim>\<open>layout(rootId, 0, 0, new Set())\<close>, and the positions are returned, unless the call has
  thrown.
\<close>

definition calculateLayoutIn ::
    "string \<Rightarrow> LayoutState \<Rightarrow> (error + (string \<rightharpoonup> Position)) \<times> LayoutState" where
  "calculateLayoutIn rootId st =
     (case layout rootId 0 0
             ((st\<lparr>positions := Map.empty, visited := {}, seen := {}\<rparr>)\<lparr>visited := {}\<rparr>) of
        (Inl e, st') \<Rightarrow> (Inl e, st')
      | (Inr nextX, st') \<Rightarrow> (Inr (positions st'), st'))"

text \<open>
  The call as a function of its two arguments: its outcome in a memory that holds the
  snapshot and nothing else, and the snapshot object as the call leaves it, since
  \<^verbatim>\<open>nodes\<close> is passed by reference.
\<close>

definition initialState :: "(string, TreeNode) fmap \<Rightarrow> LayoutState" where
  "initialState nodes = \<lparr>treeNodes = nodes, positions = Map.empty, visited = {}, seen = {}\<rparr>"

definition calculateLayout ::
    "string \<Rightarrow> (string, TreeNode) fmap
      \<Rightarrow> (error + (string \<rightharpoonup> Position)) \<times> (string, TreeNode) fmap" where
  "calculateLayout rootId nodes =
     (case calculateLayoutIn rootId (initialState nodes) of
        (outcome, st') \<Rightarrow> (outcome, treeNodes st'))"

lemma calculateLayout_run:
  "calculateLayout rootId nodes =
     (case layout rootId 0 0 (initialState nodes) of
        (Inl e, st') \<Rightarrow> (Inl e, treeNodes st')
      | (Inr nextX, st') \<Rightarrow> (Inr (positions st'), treeNodes st'))"
  by (simp add: calculateLayout_def calculateLayoutIn_def initialState_def
      split: prod.splits sum.splits)

section \<open>The editable node\<close>

text \<open>
  \<^verbatim>\<open>truncateText\<close> reads \<^verbatim>\<open>data.truncateLength\<close>, an optional number: \<open>None\<close> is the absent
  property, and the numbers modelled are the integers. \<^verbatim>\<open>data.truncateLength || 150\<close> takes
  150 for every falsy value, which among the integers is 0. \<^verbatim>\<open>substring(0, n)\<close> clamps a
  negative \<open>n\<close> to 0, as \<open>nat\<close> does.
\<close>

definition maxLength :: "int option \<Rightarrow> int" where
  "maxLength truncateLength =
     (case truncateLength of None \<Rightarrow> 150 | Some n \<Rightarrow> if n = 0 then 150 else n)"

definition truncateText :: "int option \<Rightarrow> string \<Rightarrow> string" where
  "truncateText truncateLength txt =
     (if int (length txt) \<le> maxLength truncateLength then txt
      else take (nat (maxLength truncateLength)) txt @ ''...'')"

text \<open>
  \<^verbatim>\<open>String.prototype.trim\<close> removes white space and line terminators from both ends. Of
  these, the characters that exist in the 8-bit \<^typ>\<open>char\<close> are tab, line feed, vertical
  tab, form feed, carriage return, space and the no-break space.
\<close>

definition isWhiteSpace :: "char \<Rightarrow> bool" where
  "isWhiteSpace c = (of_char c \<in> {9, 10, 11, 12, 13, 32, 160 :: nat})"

definition trim :: "string \<Rightarrow> string" where
  "trim s = rev (dropWhile isWhiteSpace (rev (dropWhile isWhiteSpace s)))"

text \<open>
  The component state of the editor, and \<^verbatim>\<open>handleSave\<close>: the calls it makes to
  \<^verbatim>\<open>data.onEdit\<close> are returned as a list of argument pairs, next to the new state.
\<close>

record EditorState =
  isEditing :: bool
  editText :: string

definition handleSave ::
    "string \<Rightarrow> string \<Rightarrow> EditorState \<Rightarrow> (string \<times> string) list \<times> EditorState" where
  "handleSave nid dataText st =
     ((if trim (editText st) \<noteq> dataText then [(nid, editText st)] else []),
      st\<lparr>isEditing := False\<rparr>)"

section \<open>The settings store\<close>



section \<open>Trees as the claims speak of them\<close>

text \<open>
  The claims about acyclic trees need the shape of the tree that hangs from the root.
  An \<open>rtree\<close> is that shape: a node id with the shapes of its children, in order.
  \<open>unfolds nodes t\<close> says that \<open>t\<close> is what one gets by following the \<^verbatim>\<open>children\<close> arrays
  of \<open>nodes\<close> from the root of \<open>t\<close>: every id of \<open>t\<close> is a key of \<open>nodes\<close>, and its children
  array is the list of the roots of its subtrees. The tree is acyclic, with no node
  reachable twice, when moreover no id occurs twice in \<open>t\<close>.
\<close>

datatype rtree = RNode string "rtree list"

fun root_of :: "rtree \<Rightarrow> string" where
  "root_of (RNode i ks) = i"

fun kids :: "rtree \<Rightarrow> rtree list" where
  "kids (RNode i ks) = ks"

fun ids :: "rtree \<Rightarrow> string list" where
  "ids (RNode i ks) = i # concat (map ids ks)"

fun subtrees :: "rtree \<Rightarrow> rtree list" where
  "subtrees (RNode i ks) = RNode i ks # concat (map subtrees ks)"


fun unfolds :: "(string, TreeNode) fmap \<Rightarrow> rtree \<Rightarrow> bool" where
  "unfolds nodes (RNode i ks) =
     (case fmlookup nodes i of
        None \<Rightarrow> False
      | Some node \<Rightarrow> children node = map root_of ks \<and> list_all (unfolds nodes) ks)"

definition acyclicTree :: "(string, TreeNode) fmap \<Rightarrow> string \<Rightarrow> rtree \<Rightarrow> bool" where
  "acyclicTree nodes rootId t \<longleftrightarrow> root_of t = rootId \<and> unfolds nodes t \<and> distinct (ids t)"

text \<open>The number of leaves of a tree: the width the layout means to give it.\<close>

fun leafCount :: "rtree \<Rightarrow> nat" where
  "leafCount (RNode i ks) = (if ks = [] then 1 else sum_list (map leafCount ks))"

text \<open>
  What the claims say of a position map \<open>P\<close>. \<open>separate P a b\<close>: both ids are placed and
  \<open>a\<close> is at least the horizontal spacing to the left of \<open>b\<close>. \<open>siblingsApart P ks\<close>: every
  node of an earlier tree of the list is separate from every node of a later one.
  \<open>placed P y t\<close>: the root of \<open>t\<close> is placed at height \<open>y\<close>, the subtrees of its children
  are apart, and each child is placed in the same way one level down. \<open>within P lo hi ms\<close>:
  the ids \<open>ms\<close> are placed with \<open>lo \<le> x\<close> and \<open>x + horizontalSpacing \<le> hi\<close>.
\<close>

definition separate :: "(string \<rightharpoonup> Position) \<Rightarrow> string \<Rightarrow> string \<Rightarrow> bool" where
  "separate P a b \<longleftrightarrow>
     (\<exists>pa pb. P a = Some pa \<and> P b = Some pb \<and> pos_x pa + horizontalSpacing \<le> pos_x pb)"

fun siblingsApart :: "(string \<rightharpoonup> Position) \<Rightarrow> rtree list \<Rightarrow> bool" where
  "siblingsApart P [] = True"
| "siblingsApart P (k # rest) =
     ((\<forall>a \<in> set (ids k). \<forall>b \<in> set (concat (map ids rest)). separate P a b) \<and>
      siblingsApart P rest)"

fun placed :: "(string \<rightharpoonup> Position) \<Rightarrow> int \<Rightarrow> rtree \<Rightarrow> bool" where
  "placed P y (RNode i ks) =
     ((\<exists>p. P i = Some p \<and> pos_y p = y) \<and> siblingsApart P ks \<and>
      (\<forall>k \<in> set ks. placed P (y + verticalSpacing) k))"

definition within :: "(string \<rightharpoonup> Position) \<Rightarrow> int \<Rightarrow> int \<Rightarrow> string list \<Rightarrow> bool" where
  "within P lo hi ms \<longleftrightarrow>
     (\<forall>m \<in> set ms. \<exists>p. P m = Some p \<and> lo \<le> pos_x p \<and> pos_x p + horizontalSpacing \<le> hi)"

text \<open>
  The effect of one call of \<^verbatim>\<open>layout\<close> on a subtree \<open>t\<close> no node of which has been seen,
  from state \<open>st\<close> at \<open>(x, y)\<close>, returning \<open>R\<close> in state \<open>st'\<close>; and the effect of the
  \<^verbatim>\<open>forEach\<close> loop on a list of such subtrees.
\<close>

definition laid ::
    "LayoutState \<Rightarrow> int \<Rightarrow> int \<Rightarrow> int \<Rightarrow> LayoutState \<Rightarrow> rtree \<Rightarrow> bool" where
  "laid st x y R st' t \<longleftrightarrow>
     seen st' = seen st \<union> set (ids t) \<and>
     x + horizontalSpacing \<le> R \<and>
     (\<forall>m. m \<notin> set (ids t) \<longrightarrow> positions st' m = positions st m) \<and>
     placed (positions st') y t \<and>
     within (positions st') x R (ids t)"

definition laidForest ::
    "LayoutState \<Rightarrow> int \<Rightarrow> int \<Rightarrow> int \<Rightarrow> LayoutState \<Rightarrow> rtree list \<Rightarrow> bool" where
  "laidForest st cx y R st' ks \<longleftrightarrow>
     seen st' = seen st \<union> set (concat (map ids ks)) \<and>
     cx \<le> R \<and>
     (\<forall>m. m \<notin> set (concat (map ids ks)) \<longrightarrow> positions st' m = positions st m) \<and>
     siblingsApart (positions st') ks \<and>
     (\<forall>k \<in> set ks. placed (positions st') (y + verticalSpacing) k) \<and>
     within (positions st') cx R (concat (map ids ks))"

text \<open>A tree of six nodes, used to run the layout: \<open>r\<close> has the children \<open>a\<close> and \<open>b\<close>,
  \<open>a\<close> has the child \<open>c\<close>, and \<open>c\<close> has the leaves \<open>g1\<close> and \<open>g2\<close>.\<close>

definition mkNode :: "string \<Rightarrow> string list \<Rightarrow> TreeNode" where
  "mkNode i cs =
     \<lparr>node_id = i, node_text = [], parentId = None, children = cs, bookmark = False\<rparr>"

definition sampleNodes :: "(string, TreeNode) fmap" where
  "sampleNodes = fmap_of_list
     [(''r'', mkNode ''r'' [''a'', ''b'']),
      (''a'', mkNode ''a'' [''c'']),
      (''b'', mkNode ''b'' []),
      (''c'', mkNode ''c'' [''g1'', ''g2'']),
      (''g1'', mkNode ''g1'' []),
      (''g2'', mkNode ''g2'' [])]"

definition sampleTree :: rtree where
  "sampleTree =
     RNode ''r'' [RNode ''a'' [RNode ''c'' [RNode ''g1'' [], RNode ''g2'' []]], RNode ''b'' []]"


section \<open>Arbitrary input\<close>

text \<open>
  The nodes reachable from the root id: the root, when it is a key of the mapping, and
  every child id of a reachable node that is a key of the mapping. A child id that is
  not a key is a dangling reference, not a node.
\<close>

inductive reachable :: "(string, TreeNode) fmap \<Rightarrow> string \<Rightarrow> string \<Rightarrow> bool"
  for nodes :: "(string, TreeNode) fmap" and rootId :: string
where
  root: "fmlookup nodes rootId = Some node \<Longrightarrow> reachable nodes rootId rootId"
| child: "reachable nodes rootId p \<Longrightarrow> fmlookup nodes p = Some node \<Longrightarrow>
     c \<in> set (children node) \<Longrightarrow> fmlookup nodes c = Some cnode \<Longrightarrow>
     reachable nodes rootId c"

code_pred reachable .

text \<open>
  What a stretch of the layout from state \<open>st\<close> to state \<open>st'\<close> has done when it has not
  thrown: the set \<open>seen\<close> has grown, no position was lost, and every node it added to
  \<open>seen\<close> has a position and has all its existing children in \<open>seen\<close>.
\<close>

definition covers :: "LayoutState \<Rightarrow> LayoutState \<Rightarrow> bool" where
  "covers st st' \<longleftrightarrow>
     seen st \<subseteq> seen st' \<and>
     (\<forall>m. positions st m \<noteq> None \<longrightarrow> positions st' m \<noteq> None) \<and>
     (\<forall>m \<in> seen st' - seen st.
        positions st' m \<noteq> None \<and>
        (\<forall>node. fmlookup (treeNodes st) m = Some node \<longrightarrow>
           (\<forall>c \<in> set (children node). fmlookup (treeNodes st) c \<noteq> None \<longrightarrow> c \<in> seen st')))"

text \<open>
  The inputs on which no lookup meets an inherited property: neither the root id nor any
  child id of a node names a property of \<^verbatim>\<open>Object.prototype\<close> that is no key of the
  mapping.
\<close>

definition noInheritedIds :: "(string, TreeNode) fmap \<Rightarrow> string \<Rightarrow> bool" where
  "noInheritedIds nodes rootId \<longleftrightarrow>
     nodeAt nodes rootId \<noteq> Inherited \<and>
     (\<forall>p node. fmlookup nodes p = Some node \<longrightarrow>
        (\<forall>c \<in> set (children node). nodeAt nodes c \<noteq> Inherited))"

text \<open>
  Two malformed inputs. In the first \<open>r\<close> and \<open>a\<close> are children of each other, and \<open>ghost\<close>
  is a child id that is not a key. In the second the child id that is not a key is
  \<open>constructor\<close>.
\<close>

definition cyclicNodes :: "(string, TreeNode) fmap" where
  "cyclicNodes = fmap_of_list
     [(''r'', mkNode ''r'' [''a'', ''ghost'']),
      (''a'', mkNode ''a'' [''r'', ''b'']),
      (''b'', mkNode ''b'' [])]"

definition danglingNodes :: "(string, TreeNode) fmap" where
  "danglingNodes = fmap_of_list [(''r'', mkNode ''r'' [''constructor''])]"

text \<open>
  The states of the layout of the six-node tree in which a width is consulted for \<open>a\<close>
  (by the call for the root) and then for \<open>c\<close> (by the call for \<open>a\<close>).
\<close>

definition stateAtA :: LayoutState where
  "stateAtA =
     \<lparr>treeNodes = sampleNodes,
      positions = [''r'' \<mapsto> \<lparr>pos_x = 0, pos_y = 0\<rparr>],
      visited = {}, seen = {''r''}\<rparr>"

definition stateAtC :: LayoutState where
  "stateAtC =
     \<lparr>treeNodes = sampleNodes,
      positions = [''r'' \<mapsto> \<lparr>pos_x = 0, pos_y = 0\<rparr>, ''a'' \<mapsto> \<lparr>pos_x = 125, pos_y = 120\<rparr>],
      visited = {''a'', ''c'', ''g1'', ''g2''}, seen = {''r'', ''a''}\<rparr>"

section \<open>The layout on acyclic trees\<close>

lemma width_ge_1:
  "calculateSubtreeWidth nodeId st = (Inr w, st') \<Longrightarrow> 1 \<le> w"
  "cs \<noteq> [] \<or> 1 \<le> acc \<Longrightarrow> 0 \<le> acc \<Longrightarrow> widthReduce cs acc st = (Inr w, st') \<Longrightarrow> 1 \<le> w"
proof (induct nodeId st and cs acc st arbitrary: w st' and w st'
    rule: calculateSubtreeWidth_widthReduce.induct)
  case (1 nodeId st)
  show ?case
  proof (cases "nodeAt (treeNodes st) nodeId")
    case Undefined
    then show ?thesis using 1(2) by (simp add: calculateSubtreeWidth.simps)
  next
    case Inherited
    then show ?thesis using 1(2) by (simp add: calculateSubtreeWidth.simps split: if_splits)
  next
    case (Own node)
    show ?thesis
    proof (cases "nodeId \<in> visited st \<or> children node = []")
      case True
      then show ?thesis using 1(2) Own
        by (auto simp: calculateSubtreeWidth.simps split: if_splits)
    next
      case False
      then have "widthReduce (children node) 0 (st\<lparr>visited := insert nodeId (visited st)\<rparr>)
          = (Inr w, st')"
        using 1(2) Own by (simp add: calculateSubtreeWidth.simps)
      then show ?thesis using 1(1)[OF Own] False by simp
    qed
  qed
next
  case (2 acc st)
  then show ?case by simp
next
  case (3 childId rest acc st)
  obtain r st1 where c: "calculateSubtreeWidth childId st = (r, st1)"
    by (cases "calculateSubtreeWidth childId st")
  show ?case
  proof (cases r)
    case (Inl e)
    then show ?thesis using 3(5) c by simp
  next
    case (Inr v)
    then have v1: "1 \<le> v" using 3(1) c by simp
    have "widthReduce rest (acc + v) st1 = (Inr w, st')" using 3(5) c Inr by simp
    then show ?thesis using 3(2)[OF c[symmetric] Inr] v1 3(4) by simp
  qed
qed

lemma ids_root: "root_of t \<in> set (ids t)"
  by (cases t) simp

lemma unfolds_Own:
  "unfolds nodes (RNode i ks) \<Longrightarrow>
     \<exists>node. nodeAt nodes i = Own node \<and> children node = map root_of ks \<and>
       (\<forall>k \<in> set ks. unfolds nodes k)"
  by (auto simp: nodeAt_def list_all_iff split: option.splits)

text \<open>On the ids of a tree the width never throws, whatever has been visited.\<close>

lemma widthReduce_forest_returns:
  assumes IH: "\<And>k st. k \<in> set ks \<Longrightarrow> unfolds (treeNodes st) k \<Longrightarrow>
      \<exists>w st'. calculateSubtreeWidth (root_of k) st = (Inr w, st')"
    and "\<forall>k \<in> set ks. unfolds (treeNodes st) k"
  shows "\<exists>w st'. widthReduce (map root_of ks) acc st = (Inr w, st')"
  using assms
proof (induction ks arbitrary: acc st)
  case Nil
  then show ?case by simp
next
  case (Cons k rest)
  from Cons.prems obtain w st1 where w: "calculateSubtreeWidth (root_of k) st = (Inr w, st1)"
    by fastforce
  have "treeNodes st1 = treeNodes st"
    using width_frame[of st "root_of k"] w by (simp add: widthFrame_def)
  then have "\<exists>w' st'. widthReduce (map root_of rest) (acc + w) st1 = (Inr w', st')"
    using Cons.prems by (intro Cons.IH) auto
  then show ?case using w by simp
qed

lemma width_tree_returns:
  "unfolds (treeNodes st) t \<Longrightarrow> \<exists>w st'. calculateSubtreeWidth (root_of t) st = (Inr w, st')"
proof (induction t arbitrary: st)
  case (RNode i ks)
  from unfolds_Own[OF RNode.prems] obtain node where own: "nodeAt (treeNodes st) i = Own node"
    and ch: "children node = map root_of ks" and uks: "\<forall>k \<in> set ks. unfolds (treeNodes st) k"
    by auto
  let ?st0 = "st\<lparr>visited := insert i (visited st)\<rparr>"
  show ?case
  proof (cases "i \<in> visited st \<or> ks = []")
    case True
    then show ?thesis using own ch by (auto simp: calculateSubtreeWidth.simps)
  next
    case False
    have "\<exists>w st'. widthReduce (map root_of ks) 0 ?st0 = (Inr w, st')"
      using RNode.IH uks by (intro widthReduce_forest_returns) auto
    then show ?thesis using own ch False by (simp add: calculateSubtreeWidth.simps)
  qed
qed

lemma siblingsApart_cong:
  "(\<And>m. m \<in> set (concat (map ids ks)) \<Longrightarrow> P m = P' m) \<Longrightarrow>
     siblingsApart P ks = siblingsApart P' ks"
  by (induction ks) (auto simp: separate_def)

lemma placed_cong:
  "(\<And>m. m \<in> set (ids t) \<Longrightarrow> P m = P' m) \<Longrightarrow> placed P y t = placed P' y t"
proof (induction t arbitrary: y)
  case (RNode i ks)
  have a: "P i = P' i" using RNode.prems by simp
  have b: "siblingsApart P ks = siblingsApart P' ks"
    using RNode.prems by (intro siblingsApart_cong) auto
  have c: "placed P (y + verticalSpacing) k = placed P' (y + verticalSpacing) k" if "k \<in> set ks" for k
    using that RNode.prems by (intro RNode.IH) auto
  show ?case using a b c by auto
qed

lemma within_cong:
  "(\<And>m. m \<in> set ms \<Longrightarrow> P m = P' m) \<Longrightarrow> within P lo hi ms = within P' lo hi ms"
  by (simp add: within_def)


lemma within_widen:
  "within P lo hi ms \<Longrightarrow> lo' \<le> lo \<Longrightarrow> hi \<le> hi' \<Longrightarrow> within P lo' hi' ms"
  unfolding within_def by fastforce

lemma within_append:
  "within P lo hi (ms @ ns) \<longleftrightarrow> within P lo hi ms \<and> within P lo hi ns"
  unfolding within_def by auto

lemma within_separate:
  "within P lo mid ms \<Longrightarrow> within P mid hi ns \<Longrightarrow> a \<in> set ms \<Longrightarrow> b \<in> set ns \<Longrightarrow>
     separate P a b"
  unfolding within_def separate_def by fastforce

lemma childX_ge:
  "1 \<le> w \<Longrightarrow> cx \<le> cx + (w * horizontalSpacing) div 2 - horizontalSpacing div 2"
  by (simp add: horizontalSpacing_def)

lemma layoutForEach_forest:
  assumes IH: "\<And>k x y st. k \<in> set ks \<Longrightarrow> unfolds (treeNodes st) k \<Longrightarrow> distinct (ids k) \<Longrightarrow>
      set (ids k) \<inter> seen st = {} \<Longrightarrow>
      \<exists>R st'. layout (root_of k) x y st = (Inr R, st') \<and> laid st x y R st' k"
    and "\<forall>k \<in> set ks. unfolds (treeNodes st) k"
    and "distinct (concat (map ids ks))"
    and "set (concat (map ids ks)) \<inter> seen st = {}"
  shows "\<exists>R st'. layoutForEach (map root_of ks) cx y st = (Inr R, st') \<and>
      laidForest st cx y R st' ks"
  using assms
proof (induction ks arbitrary: cx st)
  case Nil
  then show ?case by (simp add: laidForest_def within_def)
next
  case (Cons k rest)
  have uk: "unfolds (treeNodes st) k" and dk: "distinct (ids k)"
    and drest: "distinct (concat (map ids rest))"
    and disj: "set (ids k) \<inter> set (concat (map ids rest)) = {}"
    using Cons.prems(2,3) by auto
  from width_tree_returns[OF uk]
  obtain w st1 where w: "calculateSubtreeWidth (root_of k) st = (Inr w, st1)" by auto
  have w1: "1 \<le> w" using w by (rule width_ge_1(1))
  have wf: "widthFrame st st1" using width_frame[of st "root_of k"] w by simp
  then have tree1: "treeNodes st1 = treeNodes st" and pos1: "positions st1 = positions st"
    and seen1: "seen st1 = seen st"
    by (simp_all add: widthFrame_def)
  define childX where "childX = cx + (w * horizontalSpacing) div 2 - horizontalSpacing div 2"
  have cx_le: "cx \<le> childX" unfolding childX_def using w1 by (rule childX_ge)
  have uk1: "unfolds (treeNodes st1) k" using uk tree1 by simp
  have sk: "set (ids k) \<inter> seen st1 = {}" using Cons.prems(4) seen1 by auto
  from Cons.prems(1)[OF _ uk1 dk sk, of childX "y + verticalSpacing"]
  obtain R1 st2 where l1: "layout (root_of k) childX (y + verticalSpacing) st1 = (Inr R1, st2)"
    and laid1: "laid st1 childX (y + verticalSpacing) R1 st2 k"
    by auto
  have tree2: "treeNodes st2 = treeNodes st"
    using layout_frame[of st1 "root_of k" childX "y + verticalSpacing"] l1 tree1
    by (simp add: layoutFrame_def)
  have seen2: "seen st2 = seen st \<union> set (ids k)" using laid1 seen1 by (simp add: laid_def)
  have srest: "set (concat (map ids rest)) \<inter> seen st2 = {}"
    using Cons.prems(4) disj seen2 by auto
  have "\<exists>R st'. layoutForEach (map root_of rest) R1 y st2 = (Inr R, st') \<and>
      laidForest st2 R1 y R st' rest"
    using Cons.prems(1,2) drest srest tree2 by (intro Cons.IH) auto
  then obtain R2 st3 where l2: "layoutForEach (map root_of rest) R1 y st2 = (Inr R2, st3)"
    and laid2: "laidForest st2 R1 y R2 st3 rest"
    by auto
  have eq: "layoutForEach (map root_of (k # rest)) cx y st = (Inr R2, st3)"
    using w l1 l2 by (simp add: childX_def)
  let ?P2 = "positions st2" and ?P3 = "positions st3"
  have same_k: "?P3 m = ?P2 m" if "m \<in> set (ids k)" for m
  proof -
    have "m \<notin> set (concat (map ids rest))" using that disj by blast
    then show ?thesis using laid2 unfolding laidForest_def by blast
  qed
  have frame: "\<forall>m. m \<notin> set (concat (map ids (k # rest))) \<longrightarrow> ?P3 m = positions st m"
  proof (intro allI impI)
    fix m assume "m \<notin> set (concat (map ids (k # rest)))"
    then have a: "m \<notin> set (ids k)" and b: "m \<notin> set (concat (map ids rest))" by auto
    from b have "?P3 m = ?P2 m" using laid2 unfolding laidForest_def by blast
    also from a have "?P2 m = positions st1 m" using laid1 unfolding laid_def by blast
    finally show "?P3 m = positions st m" using pos1 by simp
  qed
  have placed_k: "placed ?P3 (y + verticalSpacing) k"
    using laid1 placed_cong[of k ?P3 ?P2] same_k by (simp add: laid_def)
  have within_k: "within ?P3 childX R1 (ids k)"
    using laid1 within_cong[of "ids k" ?P3 ?P2] same_k by (simp add: laid_def)
  have within_rest: "within ?P3 R1 R2 (concat (map ids rest))"
    using laid2 by (simp add: laidForest_def)
  have R12: "R1 \<le> R2" using laid2 by (simp add: laidForest_def)
  have R1: "childX + horizontalSpacing \<le> R1" using laid1 by (simp add: laid_def)
  have hs: "0 \<le> horizontalSpacing" by (simp add: horizontalSpacing_def)
  have apart: "siblingsApart ?P3 (k # rest)"
    using within_separate[OF within_k within_rest] laid2 by (simp add: laidForest_def)
  have within_all: "within ?P3 cx R2 (concat (map ids (k # rest)))"
    using within_widen[OF within_k cx_le R12] within_widen[OF within_rest _ order_refl, of cx]
      cx_le R1 hs by (simp add: within_append)
  have seen3: "seen st3 = seen st \<union> set (concat (map ids (k # rest)))"
    using seen2 laid2 by (auto simp: laidForest_def)
  have "laidForest st cx y R2 st3 (k # rest)"
    unfolding laidForest_def
    using seen3 laid2 frame apart placed_k within_all cx_le R1 R12 hs
    by (auto simp: laidForest_def)
  with eq show ?case by blast
qed

lemma layout_tree:
  "unfolds (treeNodes st) t \<Longrightarrow> distinct (ids t) \<Longrightarrow> set (ids t) \<inter> seen st = {} \<Longrightarrow>
     \<exists>R st'. layout (root_of t) x y st = (Inr R, st') \<and> laid st x y R st' t"
proof (induction t arbitrary: x y st)
  case (RNode i ks)
  from unfolds_Own[OF RNode.prems(1)] obtain node
    where own: "nodeAt (treeNodes st) i = Own node"
    and ch: "children node = map root_of ks" and uks: "\<forall>k \<in> set ks. unfolds (treeNodes st) k"
    by auto
  have unseen: "i \<notin> seen st" using RNode.prems(3) by auto
  have dks: "distinct (concat (map ids ks))" and ik: "i \<notin> set (concat (map ids ks))"
    using RNode.prems(2) by auto
  let ?st0 = "st\<lparr>seen := insert i (seen st),
      positions := (positions st)(i \<mapsto> \<lparr>pos_x = x, pos_y = y\<rparr>)\<rparr>"
  have sks: "set (concat (map ids ks)) \<inter> seen ?st0 = {}"
    using RNode.prems(3) ik by auto
  have uks0: "\<forall>k \<in> set ks. unfolds (treeNodes ?st0) k" using uks by simp
  have "\<exists>R st'. layoutForEach (map root_of ks) x y ?st0 = (Inr R, st') \<and>
      laidForest ?st0 x y R st' ks"
    using RNode.IH uks0 dks sks by (intro layoutForEach_forest) auto
  then obtain R0 st' where l0: "layoutForEach (map root_of ks) x y ?st0 = (Inr R0, st')"
    and laid0: "laidForest ?st0 x y R0 st' ks"
    by auto
  let ?R = "max R0 (x + horizontalSpacing)"
  let ?P = "positions st'"
  have eq: "layout (root_of (RNode i ks)) x y st = (Inr ?R, st')"
    using own ch unseen l0 by (simp add: layout.simps)
  have seen': "seen st' = seen st \<union> set (ids (RNode i ks))"
    using laid0 by (auto simp: laidForest_def)
  have frame0: "?P m = positions ?st0 m" if "m \<notin> set (concat (map ids ks))" for m
    using that laid0 unfolding laidForest_def by blast
  have Pi: "?P i = Some \<lparr>pos_x = x, pos_y = y\<rparr>"
    using frame0[OF ik] by simp
  have frame: "\<forall>m. m \<notin> set (ids (RNode i ks)) \<longrightarrow> ?P m = positions st m"
  proof (intro allI impI)
    fix m assume "m \<notin> set (ids (RNode i ks))"
    then have "m \<noteq> i" and "m \<notin> set (concat (map ids ks))" by auto
    then show "?P m = positions st m" using frame0[of m] by simp
  qed
  have pl: "placed ?P y (RNode i ks)"
    using Pi laid0 by (simp add: laidForest_def)
  have hs: "0 \<le> horizontalSpacing" by (simp add: horizontalSpacing_def)
  have w_i: "within ?P x ?R [i]"
    using Pi by (simp add: within_def)
  have w_ks: "within ?P x ?R (concat (map ids ks))"
    using laid0 within_widen[of ?P x R0 "concat (map ids ks)" x ?R]
    by (simp add: laidForest_def)
  have wi: "within ?P x ?R (ids (RNode i ks))"
    using w_i w_ks within_append[of ?P x ?R "[i]" "concat (map ids ks)"] by simp
  have "laid st x y ?R st' (RNode i ks)"
    unfolding laid_def using seen' frame pl wi by simp
  with eq show ?case by blast
qed

lemma calculateLayout_laid:
  assumes "acyclicTree nodes rootId t"
  shows "\<exists>P. fst (calculateLayout rootId nodes) = Inr P \<and> placed P 0 t"
proof -
  let ?st = "initialState nodes"
  have "set (ids t) \<inter> seen ?st = {}" "treeNodes ?st = nodes"
    by (simp_all add: initialState_def)
  with assms obtain R st' where "layout (root_of t) 0 0 ?st = (Inr R, st')"
    and "laid ?st 0 0 R st' t"
    using layout_tree[of ?st t 0 0] by (auto simp: acyclicTree_def)
  then show ?thesis using assms by (simp add: calculateLayout_run laid_def acyclicTree_def)
qed

lemma siblingsApart_nth:
  "siblingsApart P ks \<Longrightarrow> i < j \<Longrightarrow> j < length ks \<Longrightarrow>
     a \<in> set (ids (ks ! i)) \<Longrightarrow> b \<in> set (ids (ks ! j)) \<Longrightarrow> separate P a b"
proof (induction ks arbitrary: i j)
  case Nil
  then show ?case by simp
next
  case (Cons k rest)
  obtain j' where j: "j = Suc j'" using Cons.prems(2) by (cases j) auto
  show ?case
  proof (cases i)
    case 0
    have "rest ! j' \<in> set rest" using Cons.prems(3) j by simp
    then have "b \<in> set (concat (map ids rest))" using Cons.prems(5) j by auto
    then show ?thesis using Cons.prems(1,4) 0 by auto
  next
    case (Suc i')
    then show ?thesis using Cons j by auto
  qed
qed

lemma placed_subtrees:
  "placed P y t \<Longrightarrow> s \<in> set (subtrees t) \<Longrightarrow> siblingsApart P (kids s)"
  by (induction t arbitrary: y) auto



lemmas layout_eval = layout.simps layoutForEach.simps calculateSubtreeWidth.simps widthReduce.simps
  calculateLayout_run initialState_def horizontalSpacing_def verticalSpacing_def mkNode_def
  nodeAt_def prototypeKeys_def

lemma sample_positions:
  "\<exists>P. fst (calculateLayout ''r'' sampleNodes) = Inr P \<and>
     P ''r'' = Some \<lparr>pos_x = 0, pos_y = 0\<rparr> \<and>
     P ''a'' = Some \<lparr>pos_x = 125, pos_y = 120\<rparr> \<and>
     P ''b'' = Some \<lparr>pos_x = 625, pos_y = 120\<rparr> \<and>
     P ''c'' = Some \<lparr>pos_x = 125, pos_y = 240\<rparr> \<and>
     P ''g1'' = Some \<lparr>pos_x = 125, pos_y = 360\<rparr> \<and>
     P ''g2'' = Some \<lparr>pos_x = 375, pos_y = 360\<rparr>"
  by (simp add: layout_eval sampleNodes_def)

lemma unfolds_subtree:
  "unfolds nodes t \<Longrightarrow> p \<in> set (ids t) \<Longrightarrow>
     \<exists>s \<in> set (subtrees t). root_of s = p \<and>
       (\<exists>node. fmlookup nodes p = Some node \<and> children node = map root_of (kids s))"
proof (induction t)
  case (RNode i ks)
  show ?case
  proof (cases "p = i")
    case True
    then show ?thesis using RNode.prems(1) by (auto split: option.splits)
  next
    case False
    then obtain k where k: "k \<in> set ks" "p \<in> set (ids k)" using RNode.prems(2) by auto
    then have "unfolds nodes k" using RNode.prems(1)
      by (auto split: option.splits simp: list_all_iff)
    from RNode.IH[OF k(1) this k(2)] k(1) show ?thesis by auto
  qed
qed

text \<open>
  C1. On an acyclic tree the layout returns a position map in which the subtrees of two
  children of one node occupy disjoint x-ranges: for a node \<open>s\<close> of the tree and two of
  its children, the \<open>i\<close>-th before the \<open>j\<close>-th, every node in the subtree of the first is
  placed strictly to the left of every node in the subtree of the second, by at least the
  horizontal spacing.
\<close>

theorem sibling_subtrees_disjoint:
  assumes "acyclicTree nodes rootId t"
    and "s \<in> set (subtrees t)"
    and "i < j" and "j < length (kids s)"
    and "a \<in> set (ids (kids s ! i))" and "b \<in> set (ids (kids s ! j))"
  shows "\<exists>P pa pb. fst (calculateLayout rootId nodes) = Inr P \<and>
           P a = Some pa \<and> P b = Some pb \<and>
           pos_x pa < pos_x pb \<and> pos_x pa + horizontalSpacing \<le> pos_x pb"
proof -
  from calculateLayout_laid[OF assms(1)]
  obtain P where P: "fst (calculateLayout rootId nodes) = Inr P" and pl: "placed P 0 t"
    by auto
  have "siblingsApart P (kids s)"
    using pl assms(2) by (rule placed_subtrees)
  then have "separate P a b"
    using assms(3-6) by (rule siblingsApart_nth)
  then show ?thesis using P by (auto simp: separate_def horizontalSpacing_def)
qed

theorem sibling_subtrees_disjoint_witness:
  "acyclicTree sampleNodes ''r'' sampleTree \<and>
   (\<exists>P pa pb. fst (calculateLayout ''r'' sampleNodes) = Inr P \<and>
      P ''g2'' = Some pa \<and> P ''b'' = Some pb \<and>
      pos_x pa < pos_x pb \<and> pos_x pa + horizontalSpacing \<le> pos_x pb)"
proof -
  have t: "acyclicTree sampleNodes ''r'' sampleTree"
    by (simp add: acyclicTree_def sampleNodes_def sampleTree_def mkNode_def)
  have s: "sampleTree \<in> set (subtrees sampleTree)" by (simp add: sampleTree_def)
  have j: "(0::nat) < 1" "1 < length (kids sampleTree)" by (simp_all add: sampleTree_def)
  have a: "''g2'' \<in> set (ids (kids sampleTree ! 0))" by (simp add: sampleTree_def)
  have b: "''b'' \<in> set (ids (kids sampleTree ! 1))" by (simp add: sampleTree_def)
  from sibling_subtrees_disjoint [OF t s j a b] t show ?thesis by simp
qed



text \<open>
  C7. On an acyclic tree the children of every node are placed left to right in the
  order of its \<^verbatim>\<open>children\<close> array: an earlier child has a strictly smaller x than a
  later one.
\<close>

theorem children_left_to_right:
  assumes "acyclicTree nodes rootId t"
    and "p \<in> set (ids t)" and "fmlookup nodes p = Some node"
    and "i < j" and "j < length (children node)"
  shows "\<exists>P pa pb. fst (calculateLayout rootId nodes) = Inr P \<and>
           P (children node ! i) = Some pa \<and> P (children node ! j) = Some pb \<and>
           pos_x pa < pos_x pb"
proof -
  from calculateLayout_laid[OF assms(1)]
  obtain P where P: "fst (calculateLayout rootId nodes) = Inr P" and pl: "placed P 0 t"
    by auto
  have "unfolds nodes t" using assms(1) by (simp add: acyclicTree_def)
  from unfolds_subtree[OF this assms(2)] assms(3)
  obtain s where s: "s \<in> set (subtrees t)" and ch: "children node = map root_of (kids s)"
    by auto
  have len: "j < length (kids s)" using assms(5) ch by simp
  have apart: "siblingsApart P (kids s)" using pl s by (rule placed_subtrees)
  have "separate P (root_of (kids s ! i)) (root_of (kids s ! j))"
    using apart assms(4) len by (rule siblingsApart_nth) (rule ids_root)+
  moreover have "children node ! i = root_of (kids s ! i)" "children node ! j = root_of (kids s ! j)"
    using ch len assms(4) by simp_all
  ultimately show ?thesis using P by (auto simp: separate_def horizontalSpacing_def)
qed

theorem children_left_to_right_witness:
  "acyclicTree sampleNodes ''r'' sampleTree \<and>
   (\<exists>P pa pb. fst (calculateLayout ''r'' sampleNodes) = Inr P \<and>
      P ''g1'' = Some pa \<and> P ''g2'' = Some pb \<and> pos_x pa < pos_x pb)"
proof -
  have t: "acyclicTree sampleNodes ''r'' sampleTree"
    by (simp add: acyclicTree_def sampleNodes_def sampleTree_def mkNode_def)
  have p: "''c'' \<in> set (ids sampleTree)" by (simp add: sampleTree_def)
  have n: "fmlookup sampleNodes ''c'' = Some (mkNode ''c'' [''g1'', ''g2''])"
    by (simp add: sampleNodes_def)
  have j: "(0::nat) < 1" "1 < length (children (mkNode ''c'' [''g1'', ''g2'']))"
    by (simp_all add: mkNode_def)
  from children_left_to_right [OF t p n j] t show ?thesis by (simp add: mkNode_def)
qed

subsection \<open>Widths and centring\<close>

lemma widthReduce_fresh:
  assumes IH: "\<And>k st. k \<in> set ks \<Longrightarrow> unfolds (treeNodes st) k \<Longrightarrow> distinct (ids k) \<Longrightarrow>
      set (ids k) \<inter> visited st = {} \<Longrightarrow>
      calculateSubtreeWidth (root_of k) st =
        (Inr (int (leafCount k)), st\<lparr>visited := visited st \<union> set (ids k)\<rparr>)"
    and "\<forall>k \<in> set ks. unfolds (treeNodes st) k"
    and "distinct (concat (map ids ks))"
    and "set (concat (map ids ks)) \<inter> visited st = {}"
  shows "widthReduce (map root_of ks) acc st =
      (Inr (acc + int (sum_list (map leafCount ks))),
       st\<lparr>visited := visited st \<union> set (concat (map ids ks))\<rparr>)"
  using assms
proof (induction ks arbitrary: acc st)
  case Nil
  then show ?case by simp
next
  case (Cons k rest)
  have uk: "unfolds (treeNodes st) k" and dk: "distinct (ids k)"
    and drest: "distinct (concat (map ids rest))"
    and disj: "set (ids k) \<inter> set (concat (map ids rest)) = {}"
    using Cons.prems(2,3) by auto
  have sk: "set (ids k) \<inter> visited st = {}" using Cons.prems(4) by auto
  let ?st1 = "st\<lparr>visited := visited st \<union> set (ids k)\<rparr>"
  have w: "calculateSubtreeWidth (root_of k) st = (Inr (int (leafCount k)), ?st1)"
    using Cons.prems(1)[OF _ uk dk sk] by simp
  have srest: "set (concat (map ids rest)) \<inter> visited ?st1 = {}"
    using Cons.prems(4) disj by auto
  have "widthReduce (map root_of rest) (acc + int (leafCount k)) ?st1 =
      (Inr (acc + int (leafCount k) + int (sum_list (map leafCount rest))),
       ?st1\<lparr>visited := visited ?st1 \<union> set (concat (map ids rest))\<rparr>)"
    using Cons.prems(1,2) drest srest by (intro Cons.IH) auto
  then show ?case using w by (simp add: Un_assoc)
qed

text \<open>
  On a subtree of an acyclic tree none of whose ids is in \<^verbatim>\<open>visited\<close>,
  \<^verbatim>\<open>calculateSubtreeWidth\<close> returns the number of its leaves and puts all its ids into
  \<^verbatim>\<open>visited\<close>.
\<close>

lemma width_of_unvisited_subtree:
  "unfolds (treeNodes st) t \<Longrightarrow> distinct (ids t) \<Longrightarrow> set (ids t) \<inter> visited st = {} \<Longrightarrow>
     calculateSubtreeWidth (root_of t) st =
       (Inr (int (leafCount t)), st\<lparr>visited := visited st \<union> set (ids t)\<rparr>)"
proof (induction t arbitrary: st)
  case (RNode i ks)
  from unfolds_Own[OF RNode.prems(1)] obtain node
    where own: "nodeAt (treeNodes st) i = Own node"
    and ch: "children node = map root_of ks" and uks: "\<forall>k \<in> set ks. unfolds (treeNodes st) k"
    by auto
  have unseen: "i \<notin> visited st" using RNode.prems(3) by auto
  let ?st0 = "st\<lparr>visited := insert i (visited st)\<rparr>"
  show ?case
  proof (cases "ks = []")
    case True
    then show ?thesis using own ch unseen by (simp add: calculateSubtreeWidth.simps)
  next
    case False
    have dks: "distinct (concat (map ids ks))" and ik: "i \<notin> set (concat (map ids ks))"
      using RNode.prems(2) by auto
    have sks: "set (concat (map ids ks)) \<inter> visited ?st0 = {}"
      using RNode.prems(3) ik by auto
    have uks0: "\<forall>k \<in> set ks. unfolds (treeNodes ?st0) k" using uks by simp
    have "widthReduce (map root_of ks) 0 ?st0 =
        (Inr (0 + int (sum_list (map leafCount ks))),
         ?st0\<lparr>visited := visited ?st0 \<union> set (concat (map ids ks))\<rparr>)"
      using RNode.IH uks0 dks sks by (intro widthReduce_fresh) auto
    then show ?thesis using own ch unseen False by (simp add: calculateSubtreeWidth.simps)
  qed
qed

text \<open>
  The layout of the six-node tree, step by step, down to the two states in which the
  widths of \<open>a\<close> and of \<open>c\<close> are consulted.
\<close>

lemma width_consulted_trace:
  "layout ''r'' 0 0 (initialState sampleNodes) =
     (case layoutForEach [''a'', ''b''] 0 0 stateAtA of
        (Inl e, st') \<Rightarrow> (Inl e, st')
      | (Inr cx, st') \<Rightarrow> (Inr (max cx (0 + horizontalSpacing)), st'))"
  "layoutForEach [''a'', ''b''] 0 0 stateAtA =
     (case layout ''a'' 125 120 (snd (calculateSubtreeWidth ''a'' stateAtA)) of
        (Inl e, st2) \<Rightarrow> (Inl e, st2)
      | (Inr cx, st2) \<Rightarrow> layoutForEach [''b''] cx 0 st2)"
  "layout ''a'' 125 120 (snd (calculateSubtreeWidth ''a'' stateAtA)) =
     (case layoutForEach [''c''] 125 120 stateAtC of
        (Inl e, st') \<Rightarrow> (Inl e, st')
      | (Inr cx, st') \<Rightarrow> (Inr (max cx (125 + horizontalSpacing)), st'))"
  "layoutForEach [''c''] 125 120 stateAtC =
     (case layout ''c'' 125 240 (snd (calculateSubtreeWidth ''c'' stateAtC)) of
        (Inl e, st2) \<Rightarrow> (Inl e, st2)
      | (Inr cx, st2) \<Rightarrow> layoutForEach [] cx 120 st2)"
proof -
  have a: "calculateSubtreeWidth ''a'' stateAtA
      = (Inr 2, stateAtA\<lparr>visited := {''a'', ''c'', ''g1'', ''g2''}\<rparr>)"
    by (simp add: layout_eval sampleNodes_def stateAtA_def insert_commute)
  have c: "calculateSubtreeWidth ''c'' stateAtC = (Inr 1, stateAtC)"
    by (simp add: layout_eval sampleNodes_def stateAtC_def)
  show "layout ''r'' 0 0 (initialState sampleNodes) =
     (case layoutForEach [''a'', ''b''] 0 0 stateAtA of
        (Inl e, st') \<Rightarrow> (Inl e, st')
      | (Inr cx, st') \<Rightarrow> (Inr (max cx (0 + horizontalSpacing)), st'))"
    by (simp add: layout.simps nodeAt_def sampleNodes_def mkNode_def stateAtA_def
        initialState_def)
  show "layoutForEach [''a'', ''b''] 0 0 stateAtA =
     (case layout ''a'' 125 120 (snd (calculateSubtreeWidth ''a'' stateAtA)) of
        (Inl e, st2) \<Rightarrow> (Inl e, st2)
      | (Inr cx, st2) \<Rightarrow> layoutForEach [''b''] cx 0 st2)"
    by (simp add: a horizontalSpacing_def verticalSpacing_def)
  show "layout ''a'' 125 120 (snd (calculateSubtreeWidth ''a'' stateAtA)) =
     (case layoutForEach [''c''] 125 120 stateAtC of
        (Inl e, st') \<Rightarrow> (Inl e, st')
      | (Inr cx, st') \<Rightarrow> (Inr (max cx (125 + horizontalSpacing)), st'))"
    unfolding a snd_conv
    by (simp add: layout.simps nodeAt_def sampleNodes_def mkNode_def stateAtA_def
        stateAtC_def insert_commute)
  show "layoutForEach [''c''] 125 120 stateAtC =
     (case layout ''c'' 125 240 (snd (calculateSubtreeWidth ''c'' stateAtC)) of
        (Inl e, st2) \<Rightarrow> (Inl e, st2)
      | (Inr cx, st2) \<Rightarrow> layoutForEach [] cx 120 st2)"
    by (simp add: c horizontalSpacing_def verticalSpacing_def)
qed

text \<open>
  C4, at the six-node tree. The node \<open>c\<close> has the two leaves \<open>g1\<close> and \<open>g2\<close>. The width of
  \<open>a\<close>, consulted first, is 2 and leaves \<open>a\<close>, \<open>c\<close>, \<open>g1\<close> and \<open>g2\<close> in \<^verbatim>\<open>visited\<close>; the width
  of \<open>c\<close>, consulted next in the state that leaves, is 1 and not 2, which puts \<open>c\<close> at
  \<open>125 + (1 * 250) / 2 - 250 / 2 = 125\<close>.
\<close>

theorem width_of_visited_subtree:
  "acyclicTree sampleNodes ''r'' sampleTree \<and>
   RNode ''c'' [RNode ''g1'' [], RNode ''g2'' []] \<in> set (subtrees sampleTree) \<and>
   leafCount (RNode ''c'' [RNode ''g1'' [], RNode ''g2'' []]) = 2 \<and>
   calculateSubtreeWidth ''a'' stateAtA
     = (Inr 2, stateAtA\<lparr>visited := {''a'', ''c'', ''g1'', ''g2''}\<rparr>) \<and>
   calculateSubtreeWidth ''c'' stateAtC = (Inr 1, stateAtC) \<and>
   (\<exists>P. fst (calculateLayout ''r'' sampleNodes) = Inr P \<and>
      P ''a'' = Some \<lparr>pos_x = 125, pos_y = 120\<rparr> \<and>
      P ''c'' = Some \<lparr>pos_x = 125, pos_y = 240\<rparr>)"
proof -
  have a: "acyclicTree sampleNodes ''r'' sampleTree"
    by (simp add: acyclicTree_def sampleNodes_def sampleTree_def mkNode_def)
  have b: "RNode ''c'' [RNode ''g1'' [], RNode ''g2'' []] \<in> set (subtrees sampleTree)"
    by (simp add: sampleTree_def)
  have c: "leafCount (RNode ''c'' [RNode ''g1'' [], RNode ''g2'' []]) = 2" by simp
  have d: "calculateSubtreeWidth ''a'' stateAtA
      = (Inr 2, stateAtA\<lparr>visited := {''a'', ''c'', ''g1'', ''g2''}\<rparr>)"
    by (simp add: layout_eval sampleNodes_def stateAtA_def insert_commute)
  have e: "calculateSubtreeWidth ''c'' stateAtC = (Inr 1, stateAtC)"
    by (simp add: layout_eval sampleNodes_def stateAtC_def)
  from a b c d e sample_positions show ?thesis by blast
qed

text \<open>
  C5, at the six-node tree. The node \<open>c\<close> is at \<open>x = 125\<close>, above its first child, while
  its children \<open>g1\<close> and \<open>g2\<close> are at 125 and 375 with the centre 250; the root is at 0
  while its children are at 125 and 625.
\<close>

theorem parent_left_of_children_centre:
  "fmlookup sampleNodes ''c'' = Some (mkNode ''c'' [''g1'', ''g2'']) \<and>
   fmlookup sampleNodes ''r'' = Some (mkNode ''r'' [''a'', ''b'']) \<and>
   (\<exists>P. fst (calculateLayout ''r'' sampleNodes) = Inr P \<and>
      P ''c'' = Some \<lparr>pos_x = 125, pos_y = 240\<rparr> \<and>
      P ''g1'' = Some \<lparr>pos_x = 125, pos_y = 360\<rparr> \<and>
      P ''g2'' = Some \<lparr>pos_x = 375, pos_y = 360\<rparr> \<and>
      P ''r'' = Some \<lparr>pos_x = 0, pos_y = 0\<rparr> \<and>
      P ''a'' = Some \<lparr>pos_x = 125, pos_y = 120\<rparr> \<and>
      P ''b'' = Some \<lparr>pos_x = 625, pos_y = 120\<rparr>) \<and>
   (125::int) \<noteq> (125 + 375) div 2 \<and>
   (0::int) \<noteq> (125 + 625) div 2"
proof -
  have "fmlookup sampleNodes ''c'' = Some (mkNode ''c'' [''g1'', ''g2''])"
    "fmlookup sampleNodes ''r'' = Some (mkNode ''r'' [''a'', ''b''])"
    by (simp_all add: sampleNodes_def)
  moreover have "(125::int) \<noteq> (125 + 375) div 2" "(0::int) \<noteq> (125 + 625) div 2" by simp_all
  ultimately show ?thesis using sample_positions by blast
qed

section \<open>The layout on arbitrary input\<close>

lemma covers_refl: "covers st st"
  by (simp add: covers_def)

lemma covers_trans:
  assumes "covers st st1" and "covers st1 st2" and "treeNodes st1 = treeNodes st"
  shows "covers st st2"
  unfolding covers_def
proof (intro conjI ballI allI impI)
  show "seen st \<subseteq> seen st2" using assms by (auto simp: covers_def)
next
  fix m assume "positions st m \<noteq> None"
  then show "positions st2 m \<noteq> None" using assms by (simp add: covers_def)
next
  fix m assume m: "m \<in> seen st2 - seen st"
  show "positions st2 m \<noteq> None"
  proof (cases "m \<in> seen st1")
    case True
    then have "positions st1 m \<noteq> None" using m assms(1) by (simp add: covers_def)
    then show ?thesis using assms(2) by (simp add: covers_def)
  next
    case False
    then show ?thesis using m assms(2) by (simp add: covers_def)
  qed
next
  fix m node c
  assume m: "m \<in> seen st2 - seen st" and n: "fmlookup (treeNodes st) m = Some node"
    and c: "c \<in> set (children node)" "fmlookup (treeNodes st) c \<noteq> None"
  have sub: "seen st1 \<subseteq> seen st2" using assms(2) by (simp add: covers_def)
  show "c \<in> seen st2"
  proof (cases "m \<in> seen st1")
    case True
    then have "c \<in> seen st1" using m n c assms(1) unfolding covers_def by blast
    then show ?thesis using sub by blast
  next
    case False
    then have "m \<in> seen st2 - seen st1" using m by simp
    then have "\<forall>node. fmlookup (treeNodes st1) m = Some node \<longrightarrow>
        (\<forall>c \<in> set (children node). fmlookup (treeNodes st1) c \<noteq> None \<longrightarrow> c \<in> seen st2)"
      using assms(2) unfolding covers_def by blast
    then show ?thesis using n c unfolding assms(3) by blast
  qed
qed

lemma covers_width: "widthFrame st st' \<Longrightarrow> covers st st'"
  by (simp add: covers_def widthFrame_def)

lemma layout_covers:
  "layout nodeId x y st = (Inr R, st') \<Longrightarrow>
     covers st st' \<and> (fmlookup (treeNodes st) nodeId \<noteq> None \<longrightarrow> nodeId \<in> seen st')"
  "layoutForEach cs currentX y st = (Inr R, st') \<Longrightarrow>
     covers st st' \<and> (\<forall>c \<in> set cs. fmlookup (treeNodes st) c \<noteq> None \<longrightarrow> c \<in> seen st')"
proof (induct nodeId x y st and cs currentX y st arbitrary: R st' and R st'
    rule: layout_layoutForEach.induct)
  case (1 nodeId x y st)
  show ?case
  proof (cases "nodeAt (treeNodes st) nodeId")
    case Undefined
    then have "fmlookup (treeNodes st) nodeId = None"
      by (auto simp: nodeAt_def split: option.splits)
    then show ?thesis using 1(2) Undefined by (auto simp: layout.simps covers_refl)
  next
    case Inherited
    then have "fmlookup (treeNodes st) nodeId = None"
      by (auto simp: nodeAt_def split: option.splits)
    then show ?thesis using 1(2) Inherited
      by (auto simp: layout.simps covers_refl split: if_splits)
  next
    case (Own node)
    then have look: "fmlookup (treeNodes st) nodeId = Some node" by (simp add: nodeAt_Own)
    show ?thesis
    proof (cases "nodeId \<in> seen st")
      case True
      then show ?thesis using 1(2) Own by (auto simp: layout.simps covers_refl)
    next
      case False
      let ?st0 = "st\<lparr>seen := insert nodeId (seen st),
          positions := (positions st)(nodeId \<mapsto> \<lparr>pos_x = x, pos_y = y\<rparr>)\<rparr>"
      obtain r0 st0' where l0: "layoutForEach (children node) x y ?st0 = (r0, st0')"
        by (cases "layoutForEach (children node) x y ?st0")
      have "st0' = st' \<and> (\<exists>cx. r0 = Inr cx)"
        using 1(2) Own False l0 by (cases r0) (simp_all add: layout.simps)
      then obtain cx where l: "layoutForEach (children node) x y ?st0 = (Inr cx, st')"
        using l0 by auto
      from 1(1)[OF Own False l] have c0: "covers ?st0 st'"
        and ch: "\<forall>c \<in> set (children node). fmlookup (treeNodes st) c \<noteq> None \<longrightarrow> c \<in> seen st'"
        by simp_all
      have ch0: "\<forall>m \<in> seen st' - seen ?st0. \<forall>node. fmlookup (treeNodes st) m = Some node \<longrightarrow>
          (\<forall>c \<in> set (children node). fmlookup (treeNodes st) c \<noteq> None \<longrightarrow> c \<in> seen st')"
        using c0 unfolding covers_def by simp
      have in': "nodeId \<in> seen st'" using c0 by (auto simp: covers_def)
      have pos': "positions st' nodeId \<noteq> None" using c0 by (simp add: covers_def)
      have "covers st st'"
        unfolding covers_def
      proof (intro conjI ballI allI impI)
        show "seen st \<subseteq> seen st'" using c0 by (auto simp: covers_def)
      next
        fix m assume "positions st m \<noteq> None"
        then have "positions ?st0 m \<noteq> None" by simp
        then show "positions st' m \<noteq> None" using c0 unfolding covers_def by blast
      next
        fix m assume m: "m \<in> seen st' - seen st"
        show "positions st' m \<noteq> None"
        proof (cases "m = nodeId")
          case True
          then show ?thesis using pos' by simp
        next
          case False
          then have "m \<in> seen st' - seen ?st0" using m by simp
          then show ?thesis using c0 unfolding covers_def by blast
        qed
      next
        fix m nd c
        assume m: "m \<in> seen st' - seen st" and n: "fmlookup (treeNodes st) m = Some nd"
          and c: "c \<in> set (children nd)" "fmlookup (treeNodes st) c \<noteq> None"
        show "c \<in> seen st'"
        proof (cases "m = nodeId")
          case True
          then show ?thesis using ch n c look by simp
        next
          case False
          then have "m \<in> seen st' - seen ?st0" using m by simp
          then show ?thesis using ch0 n c by blast
        qed
      qed
      then show ?thesis using in' by simp
    qed
  qed
next
  case (2 currentX y st)
  then show ?case by (simp add: covers_refl)
next
  case (3 childId rest currentX y st)
  obtain r1 st1 where w0: "calculateSubtreeWidth childId st = (r1, st1)"
    by (cases "calculateSubtreeWidth childId st")
  have "\<exists>w. r1 = Inr w" using 3(3) w0 by (cases r1) simp_all
  then obtain w where w: "calculateSubtreeWidth childId st = (Inr w, st1)" using w0 by auto
  let ?cx = "currentX + (w * horizontalSpacing) div 2 - horizontalSpacing div 2"
  obtain r2 st2 where l0: "layout childId ?cx (y + verticalSpacing) st1 = (r2, st2)"
    by (cases "layout childId ?cx (y + verticalSpacing) st1")
  have "\<exists>cx'. r2 = Inr cx'" using 3(3) w l0 by (cases r2) simp_all
  then obtain cx' where l: "layout childId ?cx (y + verticalSpacing) st1 = (Inr cx', st2)"
    using l0 by auto
  have l2: "layoutForEach rest cx' y st2 = (Inr R, st')" using 3(3) w l by simp
  have wf: "widthFrame st st1" using width_frame[of st childId] w by simp
  then have t1: "treeNodes st1 = treeNodes st" by (simp add: widthFrame_def)
  have t2: "treeNodes st2 = treeNodes st1"
    using layout_frame[of st1 childId ?cx "y + verticalSpacing"] l by (simp add: layoutFrame_def)
  have c01: "covers st st1" using wf by (rule covers_width)
  from 3(1)[OF w[symmetric] refl l] have c12: "covers st1 st2"
    and inc: "fmlookup (treeNodes st) childId \<noteq> None \<longrightarrow> childId \<in> seen st2"
    using t1 by simp_all
  from 3(2)[OF w[symmetric] refl l[symmetric] refl l2] have c23: "covers st2 st'"
    and inr: "\<forall>c \<in> set rest. fmlookup (treeNodes st) c \<noteq> None \<longrightarrow> c \<in> seen st'"
    using t1 t2 by simp_all
  have "covers st st2" using c01 c12 t1 by (rule covers_trans)
  then have "covers st st'" using c23 t1 t2 by (intro covers_trans[of st st2 st']) simp_all
  moreover have "seen st2 \<subseteq> seen st'" using c23 by (simp add: covers_def)
  ultimately show ?case using inc inr by auto
qed

lemma reachable_positioned:
  assumes "fst (calculateLayout rootId nodes) = Inr P" and "reachable nodes rootId m"
  shows "\<exists>p. P m = Some p"
proof -
  let ?st = "initialState nodes"
  from assms(1) obtain R st' where l: "layout rootId 0 0 ?st = (Inr R, st')"
    and P: "P = positions st'"
    by (auto simp: calculateLayout_run split: prod.splits sum.splits)
  have tree: "treeNodes ?st = nodes" and empty: "seen ?st = {}"
    by (simp_all add: initialState_def)
  from layout_covers(1)[OF l] have c: "covers ?st st'"
    and r: "fmlookup nodes rootId \<noteq> None \<longrightarrow> rootId \<in> seen st'"
    using tree by simp_all
  have "m \<in> seen st'" using assms(2)
  proof (induction rule: reachable.induct)
    case (root node)
    then show ?case using r by simp
  next
    case (child p node c cnode)
    then show ?case using c empty tree unfolding covers_def by simp
  qed
  then have "positions st' m \<noteq> None" using c empty unfolding covers_def by blast
  then show ?thesis using P by auto
qed

lemma width_returns:
  "noInheritedIds (treeNodes st) rootId \<Longrightarrow> nodeAt (treeNodes st) nodeId \<noteq> Inherited \<Longrightarrow>
     \<exists>w st'. calculateSubtreeWidth nodeId st = (Inr w, st')"
  "noInheritedIds (treeNodes st) rootId \<Longrightarrow>
     \<forall>c \<in> set cs. nodeAt (treeNodes st) c \<noteq> Inherited \<Longrightarrow>
     \<exists>w st'. widthReduce cs acc st = (Inr w, st')"
proof (induct nodeId st and cs acc st rule: calculateSubtreeWidth_widthReduce.induct)
  case (1 nodeId st)
  show ?case
  proof (cases "nodeAt (treeNodes st) nodeId")
    case Undefined
    then show ?thesis by (simp add: calculateSubtreeWidth.simps)
  next
    case Inherited
    then show ?thesis using 1(3) by simp
  next
    case (Own node)
    let ?st0 = "st\<lparr>visited := insert nodeId (visited st)\<rparr>"
    show ?thesis
    proof (cases "nodeId \<in> visited st \<or> children node = []")
      case True
      then show ?thesis using Own by (auto simp: calculateSubtreeWidth.simps)
    next
      case False
      have "\<forall>c \<in> set (children node). nodeAt (treeNodes ?st0) c \<noteq> Inherited"
        using 1(2) Own by (auto simp: noInheritedIds_def nodeAt_Own)
      then have "\<exists>w st'. widthReduce (children node) 0 ?st0 = (Inr w, st')"
        using 1(1)[OF Own] False 1(2) by simp
      then show ?thesis using Own False by (simp add: calculateSubtreeWidth.simps)
    qed
  qed
next
  case (2 acc st)
  then show ?case by simp
next
  case (3 childId rest acc st)
  from 3(1)[OF 3(3)] 3(4) obtain w st1 where w: "calculateSubtreeWidth childId st = (Inr w, st1)"
    by auto
  have t1: "treeNodes st1 = treeNodes st"
    using width_frame[of st childId] w by (simp add: widthFrame_def)
  have "\<exists>w' st'. widthReduce rest (acc + w) st1 = (Inr w', st')"
    using 3(2)[OF w[symmetric] refl] 3(3,4) t1 by simp
  then show ?case using w by simp
qed

lemma layout_returns:
  "noInheritedIds (treeNodes st) rootId \<Longrightarrow> nodeAt (treeNodes st) nodeId \<noteq> Inherited \<Longrightarrow>
     \<exists>R st'. layout nodeId x y st = (Inr R, st')"
  "noInheritedIds (treeNodes st) rootId \<Longrightarrow>
     \<forall>c \<in> set cs. nodeAt (treeNodes st) c \<noteq> Inherited \<Longrightarrow>
     \<exists>R st'. layoutForEach cs currentX y st = (Inr R, st')"
proof (induct nodeId x y st and cs currentX y st rule: layout_layoutForEach.induct)
  case (1 nodeId x y st)
  show ?case
  proof (cases "nodeAt (treeNodes st) nodeId")
    case Undefined
    then show ?thesis by (simp add: layout.simps)
  next
    case Inherited
    then show ?thesis using 1(3) by simp
  next
    case (Own node)
    let ?st0 = "st\<lparr>seen := insert nodeId (seen st),
        positions := (positions st)(nodeId \<mapsto> \<lparr>pos_x = x, pos_y = y\<rparr>)\<rparr>"
    show ?thesis
    proof (cases "nodeId \<in> seen st")
      case True
      then show ?thesis using Own by (simp add: layout.simps)
    next
      case False
      have "\<forall>c \<in> set (children node). nodeAt (treeNodes ?st0) c \<noteq> Inherited"
        using 1(2) Own by (auto simp: noInheritedIds_def nodeAt_Own)
      then have "\<exists>R st'. layoutForEach (children node) x y ?st0 = (Inr R, st')"
        using 1(1)[OF Own False] 1(2) by simp
      then show ?thesis using Own False by (auto simp: layout.simps)
    qed
  qed
next
  case (2 currentX y st)
  then show ?case by simp
next
  case (3 childId rest currentX y st)
  from width_returns(1)[OF 3(3)] 3(4)
  obtain w st1 where w: "calculateSubtreeWidth childId st = (Inr w, st1)"
    by fastforce
  have t1: "treeNodes st1 = treeNodes st"
    using width_frame[of st childId] w by (simp add: widthFrame_def)
  let ?cx = "currentX + (w * horizontalSpacing) div 2 - horizontalSpacing div 2"
  from 3(1)[OF w[symmetric] refl] 3(3,4) t1
  obtain cx' st2 where l: "layout childId ?cx (y + verticalSpacing) st1 = (Inr cx', st2)"
    by auto
  have t2: "treeNodes st2 = treeNodes st"
    using layout_frame[of st1 childId ?cx "y + verticalSpacing"] l t1
    by (simp add: layoutFrame_def)
  have "\<exists>R st'. layoutForEach rest cx' y st2 = (Inr R, st')"
    using 3(2)[OF w[symmetric] refl l[symmetric] refl] 3(3,4) t2 by simp
  then show ?case using w l by simp
qed

text \<open>
  When neither the root id nor any child id names an inherited property that is no key of
  the mapping, the layout returns a position map, on cycles and on other dangling ids
  too, and the map has an entry for every reachable node.
\<close>

lemma layout_without_inherited_ids:
  assumes "noInheritedIds nodes rootId"
  shows "\<exists>P. fst (calculateLayout rootId nodes) = Inr P \<and>
    (\<forall>m. reachable nodes rootId m \<longrightarrow> (\<exists>p. P m = Some p))"
proof -
  let ?st = "initialState nodes"
  have tree: "treeNodes ?st = nodes" by (simp add: initialState_def)
  have "nodeAt nodes rootId \<noteq> Inherited" using assms by (simp add: noInheritedIds_def)
  then obtain R st' where "layout rootId 0 0 ?st = (Inr R, st')"
    using layout_returns(1)[of ?st rootId rootId 0 0] assms tree by auto
  then have "fst (calculateLayout rootId nodes) = Inr (positions st')"
    by (simp add: calculateLayout_run)
  then show ?thesis using reachable_positioned by blast
qed

lemma layout_stopped:
  "nodeAt (treeNodes st) n = Undefined \<or> n \<in> seen st \<Longrightarrow> layout n x y st = (Inr x, st)"
  by (cases "nodeAt (treeNodes st) n") (auto simp: layout.simps)

lemma width_stopped:
  "nodeAt (treeNodes st) n = Undefined \<or> n \<in> visited st \<Longrightarrow>
     calculateSubtreeWidth n st = (Inr 1, st)"
  by (cases "nodeAt (treeNodes st) n") (auto simp: calculateSubtreeWidth.simps)

lemma cyclic_positions:
  "noInheritedIds cyclicNodes ''r'' \<and>
   (\<exists>P. fst (calculateLayout ''r'' cyclicNodes) = Inr P \<and>
      P ''r'' = Some \<lparr>pos_x = 0, pos_y = 0\<rparr> \<and>
      P ''a'' = Some \<lparr>pos_x = 250, pos_y = 120\<rparr> \<and>
      P ''b'' = Some \<lparr>pos_x = 250, pos_y = 240\<rparr> \<and>
      P ''ghost'' = None)"
proof -
  have "noInheritedIds cyclicNodes ''r''"
    by (auto simp: noInheritedIds_def cyclicNodes_def nodeAt_def prototypeKeys_def mkNode_def
        split: if_splits)
  moreover have "\<exists>P. fst (calculateLayout ''r'' cyclicNodes) = Inr P \<and>
      P ''r'' = Some \<lparr>pos_x = 0, pos_y = 0\<rparr> \<and>
      P ''a'' = Some \<lparr>pos_x = 250, pos_y = 120\<rparr> \<and>
      P ''b'' = Some \<lparr>pos_x = 250, pos_y = 240\<rparr> \<and>
      P ''ghost'' = None"
    by (simp add: layout_eval cyclicNodes_def)
  ultimately show ?thesis by blast
qed

text \<open>
  C2, at a tree with a dangling child id. The root \<open>r\<close> has the one child id
  \<open>constructor\<close>, which is no key of the mapping. \<^verbatim>\<open>nodes['constructor']\<close> is the inherited
  constructor function, so the guard for dangling references does not stop the branch;
  \<^verbatim>\<open>calculateSubtreeWidth\<close> throws a \<^verbatim>\<open>TypeError\<close> at \<^verbatim>\<open>node.children.length\<close>, and
  \<^verbatim>\<open>calculateLayout\<close> returns no position map, although \<open>r\<close> is reachable.
\<close>

theorem layout_throws_on_inherited_id:
  "reachable danglingNodes ''r'' ''r'' \<and>
   fmlookup danglingNodes ''constructor'' = None \<and>
   nodeAt danglingNodes ''constructor'' = Inherited \<and>
   fst (calculateSubtreeWidth ''constructor''
      \<lparr>treeNodes = danglingNodes, positions = [''r'' \<mapsto> \<lparr>pos_x = 0, pos_y = 0\<rparr>],
        visited = {}, seen = {''r''}\<rparr>) = Inl TypeError \<and>
   fst (calculateLayout ''r'' danglingNodes) = Inl TypeError"
proof -
  have a: "reachable danglingNodes ''r'' ''r''"
    by (rule reachable.root[of _ _ "mkNode ''r'' [''constructor'']"]) (simp add: danglingNodes_def)
  have b: "fmlookup danglingNodes ''constructor'' = None" by (simp add: danglingNodes_def)
  have c: "nodeAt danglingNodes ''constructor'' = Inherited"
    by (simp add: nodeAt_def danglingNodes_def prototypeKeys_def)
  have d: "fst (calculateSubtreeWidth ''constructor''
      \<lparr>treeNodes = danglingNodes, positions = [''r'' \<mapsto> \<lparr>pos_x = 0, pos_y = 0\<rparr>],
        visited = {}, seen = {''r''}\<rparr>) = Inl TypeError"
    by (simp add: layout_eval danglingNodes_def)
  have e: "fst (calculateLayout ''r'' danglingNodes) = Inl TypeError"
    by (simp add: layout_eval danglingNodes_def)
  from a b c d e show ?thesis by blast
qed

section \<open>The layout and its input\<close>

text \<open>
  C3. The layout never changes the tree it is given, and it keeps no state. The object
  \<^verbatim>\<open>nodes\<close> is after the call what it was before, whether the call returns or throws, and
  a second run, on the object as the first run left it, has the outcome of the first: the
  same position map. In a memory \<open>st\<close>, whatever earlier calls have left in it, the call
  leaves the tree as it is and has the outcome that depends on the root id and the tree
  alone, so that a run made after another in the same memory has the same outcome. And no
  call of \<^verbatim>\<open>layout\<close>, of its loop, of \<^verbatim>\<open>calculateSubtreeWidth\<close> or of its \<^verbatim>\<open>reduce\<close> changes
  the tree, from whatever state.
\<close>

theorem layout_pure:
  "snd (calculateLayout rootId nodes) = nodes \<and>
   fst (calculateLayout rootId (snd (calculateLayout rootId nodes)))
     = fst (calculateLayout rootId nodes) \<and>
   treeNodes (snd (calculateLayoutIn rootId st)) = treeNodes st \<and>
   fst (calculateLayoutIn rootId st) = fst (calculateLayout rootId (treeNodes st)) \<and>
   fst (calculateLayoutIn rootId (snd (calculateLayoutIn rootId st)))
     = fst (calculateLayoutIn rootId st) \<and>
   treeNodes (snd (layout nodeId x y st)) = treeNodes st \<and>
   treeNodes (snd (layoutForEach cs x y st)) = treeNodes st \<and>
   treeNodes (snd (calculateSubtreeWidth nodeId st)) = treeNodes st \<and>
   treeNodes (snd (widthReduce cs acc st)) = treeNodes st"
proof -
  have b: "treeNodes (snd (layout n u v s)) = treeNodes s" for n u v s
    using layout_frame[of s n u v] by (simp add: layoutFrame_def)
  have c: "treeNodes (snd (layoutForEach cs x y st)) = treeNodes st"
    using layoutForEach_frame[of st cs x y] by (simp add: layoutFrame_def)
  have d: "treeNodes (snd (calculateSubtreeWidth nodeId st)) = treeNodes st"
    using width_frame[of st nodeId] by (simp add: widthFrame_def)
  have e: "treeNodes (snd (widthReduce cs acc st)) = treeNodes st"
    using widthReduce_frame[of st cs acc] by (simp add: widthFrame_def)
  let ?reset = "\<lambda>s. (s\<lparr>positions := Map.empty, visited := {}, seen := {}\<rparr>)\<lparr>visited := {}\<rparr>"
  have snd_run: "snd (calculateLayoutIn r s) = snd (layout r 0 0 (?reset s))" for r s
    by (simp add: calculateLayoutIn_def split: prod.splits sum.splits)
  have f: "treeNodes (snd (calculateLayoutIn r s)) = treeNodes s" for r s
    using b[of r 0 0 "?reset s"] by (simp add: snd_run)
  have reset_eq: "?reset s = initialState (treeNodes s)" for s
    by (simp add: initialState_def)
  have run_eq: "fst (calculateLayoutIn r s) = fst (calculateLayoutIn r (initialState (treeNodes s)))"
    for r s
    by (simp add: calculateLayoutIn_def reset_eq initialState_def)
  have g: "fst (calculateLayoutIn r s) = fst (calculateLayout r (treeNodes s))" for r s
    using run_eq[of r s] by (simp add: calculateLayout_def split: prod.splits)
  have a: "snd (calculateLayout r n) = n" for r n
  proof -
    have "snd (calculateLayout r n) = treeNodes (snd (calculateLayoutIn r (initialState n)))"
      by (simp add: calculateLayout_def split: prod.splits)
    then show ?thesis using f[of r "initialState n"] by (simp add: initialState_def)
  qed
  have h: "fst (calculateLayoutIn rootId (snd (calculateLayoutIn rootId st)))
      = fst (calculateLayoutIn rootId st)"
    using g[of rootId "snd (calculateLayoutIn rootId st)"] g[of rootId st] f[of rootId st]
    by simp
  from a b c d e f g h show ?thesis by simp
qed

text \<open>
  For instance the memory that the layout of the six-node tree leaves holds six positions
  and both sets filled, and the next run in it places the tree as the first did.
\<close>

theorem layout_pure_witness:
  "\<exists>st P. snd (calculateLayoutIn ''r'' (initialState sampleNodes)) = st \<and>
     seen st = {''r'', ''a'', ''c'', ''g1'', ''g2'', ''b''} \<and>
     fst (calculateLayoutIn ''r'' st) = Inr P \<and>
     P ''g2'' = Some \<lparr>pos_x = 375, pos_y = 360\<rparr> \<and>
     P ''b'' = Some \<lparr>pos_x = 625, pos_y = 120\<rparr>"
proof -
  let ?st = "snd (calculateLayoutIn ''r'' (initialState sampleNodes))"
  have s: "seen ?st = {''r'', ''a'', ''c'', ''g1'', ''g2'', ''b''}"
    by (simp add: calculateLayoutIn_def layout_eval sampleNodes_def insert_commute)
  have "treeNodes ?st = sampleNodes"
    using layout_pure[of "''r''" "sampleNodes" "initialState sampleNodes"]
    by (simp add: initialState_def)
  then have "fst (calculateLayoutIn ''r'' ?st) = fst (calculateLayout ''r'' sampleNodes)"
    using layout_pure[of "''r''" "sampleNodes" ?st] by simp
  then show ?thesis using s sample_positions by auto
qed

section \<open>Properties of the editable node\<close>

text \<open>
  C8, as the code has it. The truncation limit is the supplied \<^verbatim>\<open>truncateLength\<close> when one
  is supplied and it is not 0, and 150 otherwise. \<^verbatim>\<open>truncateText\<close> is the identity on every
  string no longer than the limit; a longer string becomes its first limit characters
  (none when the limit is negative) followed by the three characters \<open>...\<close>; and when the
  limit is not negative, the output is never longer than limit + 3.
\<close>

theorem truncateText_limit:
  "maxLength lim = (if lim = None \<or> lim = Some 0 then 150 else the lim) \<and>
   (int (length txt) \<le> maxLength lim \<longrightarrow> truncateText lim txt = txt) \<and>
   (maxLength lim < int (length txt) \<longrightarrow>
      truncateText lim txt = take (nat (maxLength lim)) txt @ ''...'' \<and>
      length (truncateText lim txt) = nat (maxLength lim) + 3) \<and>
   (0 \<le> maxLength lim \<longrightarrow> int (length (truncateText lim txt)) \<le> maxLength lim + 3)"
proof -
  have a: "maxLength lim = (if lim = None \<or> lim = Some 0 then 150 else the lim)"
    by (cases lim) (simp_all add: maxLength_def)
  have b: "int (length txt) \<le> maxLength lim \<longrightarrow> truncateText lim txt = txt"
    by (simp add: truncateText_def)
  have c: "maxLength lim < int (length txt) \<longrightarrow>
      truncateText lim txt = take (nat (maxLength lim)) txt @ ''...'' \<and>
      length (truncateText lim txt) = nat (maxLength lim) + 3"
  proof
    assume less: "maxLength lim < int (length txt)"
    then have "nat (maxLength lim) \<le> length txt" by linarith
    then have "length (take (nat (maxLength lim)) txt) = nat (maxLength lim)" by simp
    then show "truncateText lim txt = take (nat (maxLength lim)) txt @ ''...'' \<and>
      length (truncateText lim txt) = nat (maxLength lim) + 3"
      using less by (simp add: truncateText_def)
  qed
  have d: "0 \<le> maxLength lim \<longrightarrow> int (length (truncateText lim txt)) \<le> maxLength lim + 3"
    by (auto simp: truncateText_def)
  from a b c d show ?thesis by blast
qed

theorem truncateText_limit_witness:
  "truncateText (Some 5) ''abcdefgh'' = ''abcde...'' \<and>
   truncateText None ''abcdefgh'' = ''abcdefgh''"
proof -
  have "maxLength (Some 5) = 5" "maxLength None = 150"
    by (simp_all add: maxLength_def)
  then show ?thesis
    using truncateText_limit [of "Some 5" "''abcdefgh''"]
      truncateText_limit [of None "''abcdefgh''"]
    by simp
qed

text \<open>
  C8 as stated fails for a supplied \<^verbatim>\<open>truncateLength\<close> of 0: the claimed limit is 0, the
  four-character string is longer, and yet it is returned whole rather than cut to
  \<open>...\<close>. It also fails for a negative one: the output \<open>...\<close> is longer than limit + 3.
\<close>

theorem truncateText_zero_counterexample:
  "\<not> int (length ''abcd'') \<le> 0 \<and>
   truncateText (Some 0) ''abcd'' = ''abcd'' \<and>
   truncateText (Some 0) ''abcd'' \<noteq> take (nat 0) ''abcd'' @ ''...'' \<and>
   \<not> int (length (truncateText (Some (- 5)) ''abcd'')) \<le> - 5 + 3"
  by (simp add: truncateText_def maxLength_def)

text \<open>
  C9, as the code has it. \<^verbatim>\<open>handleSave\<close> calls \<^verbatim>\<open>onEdit\<close> exactly when the trimmed edited
  text differs from the stored text; the one call it then makes passes the node id and
  the untrimmed edited text; when the trimmed text equals the stored text it makes no
  call. Saving a text that was not changed makes no call exactly when the stored text has
  no white space at its ends. Either way the editor leaves editing mode.
\<close>

theorem handleSave_onEdit:
  "(fst (handleSave nid dataText st) \<noteq> [] \<longleftrightarrow> trim (editText st) \<noteq> dataText) \<and>
   (trim (editText st) \<noteq> dataText \<longrightarrow>
      fst (handleSave nid dataText st) = [(nid, editText st)]) \<and>
   (trim (editText st) = dataText \<longrightarrow> fst (handleSave nid dataText st) = []) \<and>
   (editText st = dataText \<longrightarrow>
      (fst (handleSave nid dataText st) = [] \<longleftrightarrow> trim dataText = dataText)) \<and>
   isEditing (snd (handleSave nid dataText st)) = False \<and>
   editText (snd (handleSave nid dataText st)) = editText st"
  by (simp add: handleSave_def)

theorem handleSave_onEdit_witness:
  "fst (handleSave ''n1'' ''hello'' \<lparr>isEditing = True, editText = '' hello world ''\<rparr>)
     = [(''n1'', '' hello world '')] \<and>
   fst (handleSave ''n1'' ''hello'' \<lparr>isEditing = True, editText = '' hello  ''\<rparr>) = [] \<and>
   fst (handleSave ''n1'' ''hello'' \<lparr>isEditing = True, editText = ''hello''\<rparr>) = []"
proof -
  have a: "trim '' hello world '' \<noteq> ''hello''"
    by (simp add: trim_def isWhiteSpace_def)
  have b: "trim '' hello  '' = ''hello''"
    by (simp add: trim_def isWhiteSpace_def)
  have c: "trim ''hello'' = ''hello''"
    by (simp add: trim_def isWhiteSpace_def)
  show ?thesis
    using a b c
      handleSave_onEdit [of "''n1''" "''hello''" "\<lparr>isEditing = True, editText = '' hello world ''\<rparr>"]
      handleSave_onEdit [of "''n1''" "''hello''" "\<lparr>isEditing = True, editText = '' hello  ''\<rparr>"]
      handleSave_onEdit [of "''n1''" "''hello''" "\<lparr>isEditing = True, editText = ''hello''\<rparr>"]
    by simp
qed

text \<open>
  C9 as stated fails in its last clause: the stored text \<open> hello \<close> with a space at each
  end, saved without a change, is reported as an edit, since its trimmed form differs
  from it.
\<close>

theorem handleSave_unchanged_counterexample:
  "editText \<lparr>isEditing = True, editText = '' hello ''\<rparr> = '' hello '' \<and>
   fst (handleSave ''n1'' '' hello '' \<lparr>isEditing = True, editText = '' hello ''\<rparr>)
     = [(''n1'', '' hello '')]"
  by (simp add: handleSave_def trim_def isWhiteSpace_def)

section \<open>Properties of the settings store\<close>



end
